theory Spec2Isabelle
  imports Complex_Main "HOL-Library.Monad_Syntax"
begin

section \<open>Move descriptors (MoveParser.js: class Move)\<close>

text \<open>
  JavaScript strings are modelled as \<^typ>\<open>string\<close>. A function that can throw returns an
  \<^typ>\<open>'a option\<close>: \<open>None\<close> is the uncaught \<open>TypeError\<close> of the source (the only exception
  the modelled code can raise), \<open>Some\<close> is normal completion.
\<close>

definition FACES :: "string list" where
  "FACES = [''R'', ''L'', ''U'', ''D'', ''F'', ''B'']"

text \<open>\<open>AXIS_MAP\<close>: axis, layer and direction of each face.\<close>

definition AXIS_MAP :: "string \<Rightarrow> (string \<times> int \<times> int) option" where
  "AXIS_MAP f =
     (if f = ''R'' then Some (''x'', 1, -1)
      else if f = ''L'' then Some (''x'', -1, 1)
      else if f = ''U'' then Some (''y'', 1, -1)
      else if f = ''D'' then Some (''y'', -1, 1)
      else if f = ''F'' then Some (''z'', 1, -1)
      else if f = ''B'' then Some (''z'', -1, 1)
      else None)"

text \<open>The field \<open>angle\<close> holds \<open>Math.PI\<close> or \<open>Math.PI / 2\<close>; the two values are kept symbolic.\<close>

datatype turn_angle = HalfPi | Pi

record move =
  face :: string
  prime :: bool
  double :: bool
  wide :: bool
  axis :: string
  layer :: int
  direction :: int
  angle :: turn_angle

text \<open>
  \<open>String.prototype.toUpperCase\<close> and \<open>toLowerCase\<close>, character by character on the ASCII
  letters (code units 97 to 122 are \<open>a\<close> to \<open>z\<close>, 65 to 90 are \<open>A\<close> to \<open>Z\<close>). The code
  uses them only to compare with the six face letters and to print a face letter; no
  character outside ASCII has an upper-case form that is a face letter, so leaving the other
  characters unchanged gives the parser the same result.
\<close>

definition is_lower :: "char \<Rightarrow> bool" where
  "is_lower c = ((97::nat) \<le> of_char c \<and> of_char c \<le> (122::nat))"

definition is_upper :: "char \<Rightarrow> bool" where
  "is_upper c = ((65::nat) \<le> of_char c \<and> of_char c \<le> (90::nat))"

definition upper_char :: "char \<Rightarrow> char" where
  "upper_char c = (if is_lower c then char_of (of_char c - (32::nat)) else c)"

definition lower_char :: "char \<Rightarrow> char" where
  "lower_char c = (if is_upper c then char_of (of_char c + (32::nat)) else c)"

definition toUpperCase :: "string \<Rightarrow> string" where
  "toUpperCase s = map upper_char s"

definition toLowerCase :: "string \<Rightarrow> string" where
  "toLowerCase s = map lower_char s"

text \<open>
  The constructor \<open>new Move(face, prime, double, wide)\<close>. Reading \<open>info.axis\<close> throws
  when \<open>AXIS_MAP\<close> has no entry for the upper-cased face.
\<close>

definition Move :: "string \<Rightarrow> bool \<Rightarrow> bool \<Rightarrow> bool \<Rightarrow> move option" where
  "Move f p d w =
     (let fc = toUpperCase f in
      case AXIS_MAP fc of
        None \<Rightarrow> None
      | Some (ax, ly, dir) \<Rightarrow>
          Some \<lparr> face = fc, prime = p, double = d, wide = w,
                 axis = ax, layer = ly,
                 direction = (if p then - dir else dir),
                 angle = (if d then Pi else HalfPi) \<rparr>)"

definition toString :: "move \<Rightarrow> string" where
  "toString m =
     (let f = (if wide m then toLowerCase (face m) else face m) in
      f @ (if double m then ''2'' else '''') @ (if prime m then [CHR 0x27] else ''''))"

definition inverse_move :: "move \<Rightarrow> move option" where
  "inverse_move m =
     (if double m then Move (face m) False True (wide m)
      else Move (face m) (\<not> prime m) False (wide m))"

section \<open>The facelet grid (CubeModel.js)\<close>

text \<open>
  A sticker is a colour name, or the value \<open>undefined\<close> that JavaScript yields when an array
  is read past its end. A face is an array of stickers; \<open>this.faces\<close> is an object keyed by
  face name.
\<close>

datatype sticker = Undefined | Color string

type_synonym grid = "string \<Rightarrow> sticker list option"

record cube_model =
  faces :: grid
  history :: "move list"

text \<open>Array read \<open>xs[i]\<close> and array write \<open>xs[i] = v\<close> of JavaScript: a read past the
  end is \<open>undefined\<close>, a write past the end extends the array.\<close>

definition js_nth :: "sticker list \<Rightarrow> nat \<Rightarrow> sticker" where
  "js_nth xs i = (if i < length xs then xs ! i else Undefined)"

definition js_set :: "sticker list \<Rightarrow> nat \<Rightarrow> sticker \<Rightarrow> sticker list" where
  "js_set xs i v =
     (if i < length xs then xs[i := v]
      else xs @ replicate (i - length xs) Undefined @ [v])"

definition COLORS :: "string \<Rightarrow> string option" where
  "COLORS f =
     (if f = ''U'' then Some ''white''
      else if f = ''D'' then Some ''yellow''
      else if f = ''F'' then Some ''green''
      else if f = ''B'' then Some ''blue''
      else if f = ''R'' then Some ''red''
      else if f = ''L'' then Some ''orange''
      else None)"

definition FACE_NAMES :: "string list" where
  "FACE_NAMES = [''U'', ''D'', ''F'', ''B'', ''R'', ''L'']"

definition color_of :: "string \<Rightarrow> sticker" where
  "color_of name = (case COLORS name of None \<Rightarrow> Undefined | Some c \<Rightarrow> Color c)"

text \<open>\<open>reset()\<close>: every face filled with its own colour, history cleared.\<close>

definition solved_faces :: grid where
  "solved_faces =
     fold (\<lambda>name fs. fs(name \<mapsto> replicate 9 (color_of name))) FACE_NAMES Map.empty"

definition reset_model :: "cube_model \<Rightarrow> cube_model" where
  "reset_model c = \<lparr> faces = solved_faces, history = [] \<rparr>"

text \<open>A block of assignments \<open>f[i] = temp[j]\<close>, run in order.\<close>

definition assign_all :: "(nat \<times> nat) list \<Rightarrow> sticker list \<Rightarrow> sticker list \<Rightarrow> sticker list" where
  "assign_all ijs temp f = fold (\<lambda>(i, j) a. js_set a i (js_nth temp j)) ijs f"

text \<open>The three in-place rotations of one face: \<open>temp\<close> is a copy of the face array
  \<open>f\<close>, which is then overwritten index by index. Spreading \<open>[...f]\<close> throws when the
  face name is not a key of \<open>this.faces\<close>.\<close>

definition rotateFaceCW :: "string \<Rightarrow> grid \<Rightarrow> grid option" where
  "rotateFaceCW faceName g =
     (case g faceName of
        None \<Rightarrow> None
      | Some f \<Rightarrow> Some (g(faceName \<mapsto> assign_all
          [(0, 6), (1, 3), (2, 0),
           (3, 7), (4, 4), (5, 1),
           (6, 8), (7, 5), (8, 2)] f f)))"

definition rotateFaceCCW :: "string \<Rightarrow> grid \<Rightarrow> grid option" where
  "rotateFaceCCW faceName g =
     (case g faceName of
        None \<Rightarrow> None
      | Some f \<Rightarrow> Some (g(faceName \<mapsto> assign_all
          [(0, 2), (1, 5), (2, 8),
           (3, 1), (4, 4), (5, 7),
           (6, 0), (7, 3), (8, 6)] f f)))"

definition rotateFace180 :: "string \<Rightarrow> grid \<Rightarrow> grid option" where
  "rotateFace180 faceName g =
     (case g faceName of
        None \<Rightarrow> None
      | Some f \<Rightarrow> Some (g(faceName \<mapsto> assign_all
          [(0, 8), (1, 7), (2, 6),
           (3, 5), (4, 4), (5, 3),
           (6, 2), (7, 1), (8, 0)] f f)))"

text \<open>Sticker positions are pairs of a face name and an index; a strip is a list of
  positions and a cycle table entry is a list of strips.\<close>

type_synonym pos = "string \<times> nat"

definition getSticker :: "grid \<Rightarrow> pos \<Rightarrow> sticker option" where
  "getSticker g p = (case g (fst p) of None \<Rightarrow> None | Some xs \<Rightarrow> Some (js_nth xs (snd p)))"

definition setSticker :: "grid \<Rightarrow> pos \<Rightarrow> sticker \<Rightarrow> grid option" where
  "setSticker g p v =
     (case g (fst p) of None \<Rightarrow> None | Some xs \<Rightarrow> Some (g(fst p \<mapsto> js_set xs (snd p) v)))"

text \<open>The body of the inner loop of \<open>_cycle4\<close>, for \<open>j\<close> over the destination strip:
  \<open>this.faces[df][di] = this.faces[sf][si]\<close>. Destructuring a missing source pair throws.\<close>

fun copy_strip :: "pos list \<Rightarrow> pos list \<Rightarrow> grid \<Rightarrow> grid option" where
  "copy_strip [] srcs g = Some g"
| "copy_strip (d # ds) [] g = None"
| "copy_strip (d # ds) (s # ss) g =
     do { v \<leftarrow> getSticker g s; g' \<leftarrow> setSticker g d v; copy_strip ds ss g' }"

text \<open>The last loop of \<open>_cycle4\<close>: \<open>this.faces[f][idx] = temp[j]\<close>.\<close>

fun write_strip :: "pos list \<Rightarrow> sticker list \<Rightarrow> nat \<Rightarrow> grid \<Rightarrow> grid option" where
  "write_strip [] temp j g = Some g"
| "write_strip (d # ds) temp j g =
     do { g' \<leftarrow> setSticker g d (js_nth temp j); write_strip ds temp (Suc j) g' }"

fun read_strip :: "pos list \<Rightarrow> grid \<Rightarrow> sticker list option" where
  "read_strip [] g = Some []"
| "read_strip (p # ps) g =
     do { v \<leftarrow> getSticker g p; vs \<leftarrow> read_strip ps g; Some (v # vs) }"

definition cycle4 :: "pos list list \<Rightarrow> grid \<Rightarrow> grid option" where
  "cycle4 strips g =
     (if length strips < 4 then None
      else do {
        temp \<leftarrow> read_strip (strips ! 3) g;
        g3 \<leftarrow> copy_strip (strips ! 3) (strips ! 2) g;
        g2 \<leftarrow> copy_strip (strips ! 2) (strips ! 1) g3;
        g1 \<leftarrow> copy_strip (strips ! 1) (strips ! 0) g2;
        write_strip (strips ! 0) temp 0 g1
      })"

definition EDGE_CYCLES :: "string \<Rightarrow> pos list list option" where
  "EDGE_CYCLES f =
     (if f = ''R'' then Some
        [[(''F'', 2), (''F'', 5), (''F'', 8)],
         [(''U'', 8), (''U'', 5), (''U'', 2)],
         [(''B'', 6), (''B'', 3), (''B'', 0)],
         [(''D'', 8), (''D'', 5), (''D'', 2)]]
      else if f = ''L'' then Some
        [[(''F'', 0), (''F'', 3), (''F'', 6)],
         [(''D'', 6), (''D'', 3), (''D'', 0)],
         [(''B'', 8), (''B'', 5), (''B'', 2)],
         [(''U'', 6), (''U'', 3), (''U'', 0)]]
      else if f = ''U'' then Some
        [[(''F'', 0), (''F'', 1), (''F'', 2)],
         [(''L'', 0), (''L'', 1), (''L'', 2)],
         [(''B'', 0), (''B'', 1), (''B'', 2)],
         [(''R'', 0), (''R'', 1), (''R'', 2)]]
      else if f = ''D'' then Some
        [[(''F'', 6), (''F'', 7), (''F'', 8)],
         [(''R'', 6), (''R'', 7), (''R'', 8)],
         [(''B'', 6), (''B'', 7), (''B'', 8)],
         [(''L'', 6), (''L'', 7), (''L'', 8)]]
      else if f = ''F'' then Some
        [[(''U'', 0), (''U'', 1), (''U'', 2)],
         [(''R'', 0), (''R'', 3), (''R'', 6)],
         [(''D'', 8), (''D'', 7), (''D'', 6)],
         [(''L'', 8), (''L'', 5), (''L'', 2)]]
      else if f = ''B'' then Some
        [[(''U'', 6), (''U'', 7), (''U'', 8)],
         [(''L'', 6), (''L'', 3), (''L'', 0)],
         [(''D'', 2), (''D'', 1), (''D'', 0)],
         [(''R'', 2), (''R'', 5), (''R'', 8)]]
      else None)"

definition MIDDLE_CYCLES :: "string \<Rightarrow> pos list list option" where
  "MIDDLE_CYCLES f =
     (if f = ''R'' then Some
        [[(''D'', 1), (''D'', 4), (''D'', 7)],
         [(''F'', 7), (''F'', 4), (''F'', 1)],
         [(''U'', 1), (''U'', 4), (''U'', 7)],
         [(''B'', 1), (''B'', 4), (''B'', 7)]]
      else if f = ''L'' then Some
        [[(''D'', 1), (''D'', 4), (''D'', 7)],
         [(''B'', 1), (''B'', 4), (''B'', 7)],
         [(''U'', 1), (''U'', 4), (''U'', 7)],
         [(''F'', 7), (''F'', 4), (''F'', 1)]]
      else if f = ''U'' then Some
        [[(''L'', 3), (''L'', 4), (''L'', 5)],
         [(''B'', 3), (''B'', 4), (''B'', 5)],
         [(''R'', 3), (''R'', 4), (''R'', 5)],
         [(''F'', 3), (''F'', 4), (''F'', 5)]]
      else if f = ''D'' then Some
        [[(''L'', 3), (''L'', 4), (''L'', 5)],
         [(''F'', 3), (''F'', 4), (''F'', 5)],
         [(''R'', 3), (''R'', 4), (''R'', 5)],
         [(''B'', 3), (''B'', 4), (''B'', 5)]]
      else if f = ''F'' then Some
        [[(''L'', 1), (''L'', 4), (''L'', 7)],
         [(''U'', 5), (''U'', 4), (''U'', 3)],
         [(''R'', 7), (''R'', 4), (''R'', 1)],
         [(''D'', 3), (''D'', 4), (''D'', 5)]]
      else if f = ''B'' then Some
        [[(''L'', 1), (''L'', 4), (''L'', 7)],
         [(''D'', 3), (''D'', 4), (''D'', 5)],
         [(''R'', 7), (''R'', 4), (''R'', 1)],
         [(''U'', 5), (''U'', 4), (''U'', 3)]]
      else None)"

text \<open>\<open>for (let t = 0; t < times; t++) this._cycle4(cycles)\<close>.\<close>

fun repeat_cycle4 :: "nat \<Rightarrow> pos list list \<Rightarrow> grid \<Rightarrow> grid option" where
  "repeat_cycle4 0 cycles g = Some g"
| "repeat_cycle4 (Suc t) cycles g = do { g' \<leftarrow> cycle4 cycles g; repeat_cycle4 t cycles g' }"

text \<open>\<open>_applyEdgeCycle\<close>: with no table entry, \<open>cycles\<close> is \<open>undefined\<close> and the first
  \<open>_cycle4\<close> throws; \<open>_applyMiddleCycle\<close> returns early instead.\<close>

definition applyEdgeCycle :: "string \<Rightarrow> nat \<Rightarrow> grid \<Rightarrow> grid option" where
  "applyEdgeCycle f n g =
     (case EDGE_CYCLES f of
        None \<Rightarrow> (if 0 < n then None else Some g)
      | Some cycles \<Rightarrow> repeat_cycle4 n cycles g)"

definition applyMiddleCycle :: "string \<Rightarrow> nat \<Rightarrow> grid \<Rightarrow> grid option" where
  "applyMiddleCycle f n g =
     (case MIDDLE_CYCLES f of
        None \<Rightarrow> Some g
      | Some cycles \<Rightarrow> repeat_cycle4 n cycles g)"

definition applyMove_grid :: "move \<Rightarrow> grid \<Rightarrow> grid option" where
  "applyMove_grid m g =
     (if double m then do {
        g1 \<leftarrow> rotateFace180 (face m) g;
        g2 \<leftarrow> applyEdgeCycle (face m) 2 g1;
        if wide m then applyMiddleCycle (face m) 2 g2 else Some g2 }
      else if \<not> prime m then do {
        g1 \<leftarrow> rotateFaceCW (face m) g;
        g2 \<leftarrow> applyEdgeCycle (face m) 1 g1;
        if wide m then applyMiddleCycle (face m) 1 g2 else Some g2 }
      else do {
        g1 \<leftarrow> rotateFaceCCW (face m) g;
        g2 \<leftarrow> applyEdgeCycle (face m) 3 g1;
        if wide m then applyMiddleCycle (face m) 3 g2 else Some g2 })"

text \<open>\<open>applyMove(move, recordHistory)\<close> on the whole model.\<close>

definition applyMove :: "move \<Rightarrow> bool \<Rightarrow> cube_model \<Rightarrow> cube_model option" where
  "applyMove m recordHistory c =
     (let h = (if recordHistory then history c @ [m] else history c) in
      map_option (\<lambda>g. \<lparr> faces = g, history = h \<rparr>) (applyMove_grid m (faces c)))"

fun applyMoves :: "move list \<Rightarrow> bool \<Rightarrow> cube_model \<Rightarrow> cube_model option" where
  "applyMoves [] recordHistory c = Some c"
| "applyMoves (m # ms) recordHistory c =
     do { c' \<leftarrow> applyMove m recordHistory c; applyMoves ms recordHistory c' }"

text \<open>A well-formed grid: exactly the six faces, nine stickers each.\<close>

definition grid_ok :: "grid \<Rightarrow> bool" where
  "grid_ok g = (dom g = set FACE_NAMES \<and> list_all (\<lambda>f. map_option length (g f) = Some 9) FACE_NAMES)"

text \<open>A grid written out face by face, in the order U, D, F, B, R, L.\<close>

definition mk_grid ::
  "sticker list \<Rightarrow> sticker list \<Rightarrow> sticker list \<Rightarrow> sticker list \<Rightarrow> sticker list \<Rightarrow> sticker list \<Rightarrow> grid" where
  "mk_grid u d f b r l =
     (\<lambda>k. if k = ''U'' then Some u else if k = ''D'' then Some d else if k = ''F'' then Some f
          else if k = ''B'' then Some b else if k = ''R'' then Some r else if k = ''L'' then Some l
          else None)"

section \<open>The notation parser (MoveParser.js: class MoveParser)\<close>

text \<open>
  The characters of a string are its code units below 256. The white space of \<open>trim\<close> and of
  the pattern \<open>\s\<close> among them: tab, line feed, vertical tab, form feed, carriage return,
  space and no-break space.
\<close>

definition is_space :: "char \<Rightarrow> bool" where
  "is_space c = (of_char c \<in> {9, 10, 11, 12, 13, 32, 160 :: nat})"

definition trim :: "string \<Rightarrow> string" where
  "trim s = rev (dropWhile is_space (rev (dropWhile is_space s)))"

text \<open>
  \<open>s.split(/\s+/)\<close>: the pieces between maximal runs of white space; a run at either end
  leaves an empty piece there. \<open>insep\<close> tells that the scan is inside a run, \<open>cur\<close> is the
  piece read so far, reversed.
\<close>

fun split_scan :: "bool \<Rightarrow> string \<Rightarrow> string \<Rightarrow> string list" where
  "split_scan insep cur [] = [rev cur]"
| "split_scan insep cur (c # cs) =
     (if is_space c then
        (if insep then split_scan True cur cs else rev cur # split_scan True [] cs)
      else split_scan False (c # cur) cs)"

definition split_ws :: "string \<Rightarrow> string list" where
  "split_ws s = split_scan False [] s"

text \<open>
  The \<open>while\<close> loop over one token. The argument is the part of the token from index \<open>i\<close>
  on; \<open>raw\<close> is \<open>token[i]\<close> and the next character, when there is one, is \<open>token[i + 1]\<close>.
\<close>

fun parse_token :: "string \<Rightarrow> move list option" where
  "parse_token [] = Some []"
| "parse_token [raw] =
     (let ch = toUpperCase [raw] in
      if ch \<notin> set FACES then Some []
      else do { m \<leftarrow> Move ch False False (is_lower raw); Some [m] })"
| "parse_token (raw # nxt # rest) =
     (let ch = toUpperCase [raw] in
      if ch \<notin> set FACES then parse_token (nxt # rest)
      else if nxt = CHR 0x27 then
        do { m \<leftarrow> Move ch True False (is_lower raw); ms \<leftarrow> parse_token rest; Some (m # ms) }
      else if nxt = CHR ''2'' then
        do { m \<leftarrow> Move ch False True (is_lower raw); ms \<leftarrow> parse_token rest; Some (m # ms) }
      else
        do { m \<leftarrow> Move ch False False (is_lower raw); ms \<leftarrow> parse_token (nxt # rest);
             Some (m # ms) })"

fun parse_tokens :: "string list \<Rightarrow> move list option" where
  "parse_tokens [] = Some []"
| "parse_tokens (t # ts) =
     do { ms \<leftarrow> parse_token t; ms' \<leftarrow> parse_tokens ts; Some (ms @ ms') }"

definition parse :: "string \<Rightarrow> move list option" where
  "parse algorithm =
     (if algorithm = [] \<or> trim algorithm = [] then Some []
      else parse_tokens (split_ws (trim algorithm)))"

text \<open>\<open>Array.prototype.join(' ')\<close> and \<open>MoveParser.toString\<close>.\<close>

fun join_space :: "string list \<Rightarrow> string" where
  "join_space [] = []"
| "join_space [x] = x"
| "join_space (x # y # ys) = x @ CHR '' '' # join_space (y # ys)"

definition toString_moves :: "move list \<Rightarrow> string" where
  "toString_moves ms = join_space (map toString ms)"

section \<open>The animation queue (CubeAnimator.js)\<close>

text \<open>
  A promise returned by \<open>animateMove\<close> is awaited by exactly one suspended \<open>async\<close> function:
  \<open>play\<close> or \<open>stepForward\<close> (both through \<open>_executeStep\<close>), or \<open>stepBackward\<close>. The
  \<open>resolve\<close> function stored with a move is identified with the function it wakes up.
\<close>

datatype awaiter = AwaitPlay | AwaitStepForward | AwaitStepBackward

text \<open>
  \<open>running\<close> is the closure \<open>animate\<close> handed to \<open>requestAnimationFrame\<close>, with the move and
  the \<open>resolve\<close> it captured. Numbers are real numbers, so the model of \<open>setSpeed\<close> is the
  source's for every speed other than 0 (where JavaScript yields \<open>Infinity\<close>).
\<close>

record animator =
  isAnimating :: bool
  queue :: "(move \<times> awaiter) list"
  running :: "(move \<times> awaiter) option"
  duration :: real

definition new_animator :: animator where
  "new_animator = \<lparr> isAnimating = False, queue = [], running = None, duration = 300 \<rparr>"

definition setSpeed_animator :: "real \<Rightarrow> animator \<Rightarrow> animator" where
  "setSpeed_animator speed a = a\<lparr> duration := 300 / speed \<rparr>"

definition startAnimation :: "move \<Rightarrow> awaiter \<Rightarrow> animator \<Rightarrow> animator" where
  "startAnimation mv resolve a = a\<lparr> isAnimating := True, running := Some (mv, resolve) \<rparr>"

definition animateMove :: "move \<Rightarrow> awaiter \<Rightarrow> animator \<Rightarrow> animator" where
  "animateMove mv resolve a =
     (if isAnimating a then a\<lparr> queue := queue a @ [(mv, resolve)] \<rparr>
      else startAnimation mv resolve a)"

definition clearQueue :: "animator \<Rightarrow> animator" where
  "clearQueue a = a\<lparr> queue := [] \<rparr>"

text \<open>
  The branch \<open>t >= 1\<close> of the frame callback, up to the call of \<open>resolve\<close>: the flag is
  cleared and the next queued request, if any, is started. The awaiter to wake up is returned.
\<close>

definition finish_animation :: "animator \<Rightarrow> (awaiter \<times> animator) option" where
  "finish_animation a =
     (case running a of
        None \<Rightarrow> None
      | Some (mv, resolve) \<Rightarrow>
          (let a1 = a\<lparr> isAnimating := False, running := None \<rparr> in
           Some (resolve,
             (case queue a1 of
                [] \<Rightarrow> a1
              | (nmv, nresolve) # rest \<Rightarrow> startAnimation nmv nresolve (a1\<lparr> queue := rest \<rparr>)))))"

text \<open>
  One call of the frame callback \<open>animate(now)\<close> of the running animation, which captured
  \<open>startTime\<close>: \<open>t = Math.min(elapsed / this.duration, 1)\<close>. With \<open>t < 1\<close> the callback
  requests another frame and the animator is unchanged (\<open>None\<close> of the first component);
  otherwise the animation finishes.
\<close>

definition frame_progress :: "real \<Rightarrow> real \<Rightarrow> animator \<Rightarrow> real" where
  "frame_progress startTime now a = min ((now - startTime) / duration a) 1"

definition animate_frame :: "real \<Rightarrow> real \<Rightarrow> animator \<Rightarrow> awaiter option \<times> animator" where
  "animate_frame startTime now a =
     (if frame_progress startTime now a < 1 then (None, a)
      else (case finish_animation a of
              None \<Rightarrow> (None, a)
            | Some (resolve, a') \<Rightarrow> (Some resolve, a')))"

section \<open>The playback controller (CubeController.js)\<close>

text \<open>
  The two callback slots are modelled by a flag each (a callback is installed or not) and
  the calls made to them are recorded in \<open>notifications\<close>, oldest first. The renderer is an
  external collaborator without influence on the fields below and is left out.
\<close>

datatype notification = StepChange nat nat | PlayStateChange bool

record controller =
  model :: cube_model
  animator :: animator
  moves :: "move list"
  setupMoves :: "move list"
  currentStep :: nat
  isPlaying :: bool
  playAbort :: bool
  onStepChange :: bool
  onPlayStateChange :: bool
  notifications :: "notification list"

definition new_controller :: controller where
  "new_controller =
     \<lparr> model = \<lparr> faces = solved_faces, history = [] \<rparr>,
       animator = new_animator,
       moves = [], setupMoves = [], currentStep = 0,
       isPlaying = False, playAbort = False,
       onStepChange = False, onPlayStateChange = False,
       notifications = [] \<rparr>"

definition notifyStep :: "controller \<Rightarrow> controller" where
  "notifyStep s =
     (if onStepChange s
      then s\<lparr> notifications := notifications s @ [StepChange (currentStep s) (length (moves s))] \<rparr>
      else s)"

definition notifyPlayState :: "controller \<Rightarrow> controller" where
  "notifyPlayState s =
     (if onPlayStateChange s
      then s\<lparr> notifications := notifications s @ [PlayStateChange (isPlaying s)] \<rparr>
      else s)"

definition pause :: "controller \<Rightarrow> controller" where
  "pause s = notifyPlayState (s\<lparr> playAbort := True, isPlaying := False \<rparr>)"

text \<open>The part shared by \<open>loadAlgorithm\<close> and \<open>reset\<close>: the model is reset and the setup
  moves are applied without recording them.\<close>

definition apply_setup :: "controller \<Rightarrow> controller option" where
  "apply_setup s =
     (let c = reset_model (model s) in
      do { c' \<leftarrow> (if length (setupMoves s) > 0 then applyMoves (setupMoves s) False c else Some c);
           Some (s\<lparr> model := c' \<rparr>) })"

definition loadAlgorithm :: "string \<Rightarrow> string \<Rightarrow> controller \<Rightarrow> controller option" where
  "loadAlgorithm algorithm setupText s =
     (let s1 = pause s;
          s2 = s1\<lparr> animator := clearQueue (animator s1) \<rparr> in
      do { ms \<leftarrow> parse algorithm;
           sm \<leftarrow> (if setupText \<noteq> [] then parse setupText else Some []);
           s3 \<leftarrow> apply_setup (s2\<lparr> moves := ms, setupMoves := sm, currentStep := 0 \<rparr>);
           Some (notifyStep s3) })"

definition reset :: "controller \<Rightarrow> controller option" where
  "reset s =
     (let s1 = pause s;
          s2 = s1\<lparr> animator := clearQueue (animator s1) \<rparr> in
      do { s3 \<leftarrow> apply_setup (s2\<lparr> currentStep := 0 \<rparr>);
           Some (notifyStep s3) })"

text \<open>\<open>this.moves[i]\<close>; past the end it is \<open>undefined\<close>, and using that as a move throws.\<close>

definition move_at :: "controller \<Rightarrow> nat \<Rightarrow> move option" where
  "move_at s i = (if i < length (moves s) then Some (moves s ! i) else None)"

text \<open>\<open>_executeStep\<close> up to its \<open>await\<close>: the model is changed, the animation requested,
  and the calling function is suspended.\<close>

definition executeStep :: "move \<Rightarrow> awaiter \<Rightarrow> controller \<Rightarrow> controller option" where
  "executeStep mv k s =
     do { c' \<leftarrow> applyMove mv False (model s);
          Some (s\<lparr> model := c', animator := animateMove mv k (animator s) \<rparr>) }"

text \<open>The \<open>while\<close> loop of \<open>play\<close> from its test to the next \<open>await\<close>, or to the end of
  \<open>play\<close> when the test fails.\<close>

definition play_loop :: "controller \<Rightarrow> controller option" where
  "play_loop s =
     (if currentStep s < length (moves s) \<and> \<not> playAbort s
      then do { mv \<leftarrow> move_at s (currentStep s); executeStep mv AwaitPlay s }
      else Some (notifyPlayState (s\<lparr> isPlaying := False \<rparr>)))"

definition play :: "controller \<Rightarrow> controller option" where
  "play s =
     (if isPlaying s then Some s
      else do {
        s1 \<leftarrow> (if currentStep s \<ge> length (moves s) then reset s else Some s);
        play_loop (notifyPlayState (s1\<lparr> isPlaying := True, playAbort := False \<rparr>)) })"

definition togglePlay :: "controller \<Rightarrow> controller option" where
  "togglePlay s = (if isPlaying s then Some (pause s) else play s)"

definition stepForward :: "controller \<Rightarrow> controller option" where
  "stepForward s =
     (if isPlaying s \<or> isAnimating (animator s) then Some s
      else if currentStep s \<ge> length (moves s) then Some s
      else do { mv \<leftarrow> move_at s (currentStep s); executeStep mv AwaitStepForward s })"

definition stepBackward :: "controller \<Rightarrow> controller option" where
  "stepBackward s =
     (if isPlaying s \<or> isAnimating (animator s) then Some s
      else if currentStep s \<le> 0 then Some s
      else
        (let s1 = s\<lparr> currentStep := currentStep s - 1 \<rparr> in
         do { mv \<leftarrow> move_at s1 (currentStep s1);
              inv \<leftarrow> inverse_move mv;
              c' \<leftarrow> applyMove inv False (model s1);
              Some (s1\<lparr> model := c', animator := animateMove inv AwaitStepBackward (animator s1) \<rparr>) }))"

definition setSpeed :: "real \<Rightarrow> controller \<Rightarrow> controller" where
  "setSpeed speed s = s\<lparr> animator := setSpeed_animator speed (animator s) \<rparr>"

definition dispose :: "controller \<Rightarrow> controller" where
  "dispose s = pause s"

text \<open>What a suspended function does when its promise resolves, up to its next \<open>await\<close>
  or its end.\<close>

fun resume :: "awaiter \<Rightarrow> controller \<Rightarrow> controller option" where
  "resume AwaitPlay s = play_loop (notifyStep (s\<lparr> currentStep := currentStep s + 1 \<rparr>))"
| "resume AwaitStepForward s = Some (notifyStep (s\<lparr> currentStep := currentStep s + 1 \<rparr>))"
| "resume AwaitStepBackward s = Some (notifyStep s)"

text \<open>
  The running animation completes: the frame callback finishes the animation and resolves
  its promise, and the awaiting function then runs as a microtask, before any other event.
  Without a running animation nothing happens.
\<close>

definition animation_done :: "controller \<Rightarrow> controller option" where
  "animation_done s =
     (case finish_animation (animator s) of
        None \<Rightarrow> Some s
      | Some (k, a') \<Rightarrow> resume k (s\<lparr> animator := a' \<rparr>))"

text \<open>The events of a session: the calls of the public operations and the completions of
  animations, in the order in which they happen.\<close>

datatype event =
  LoadAlgorithm string string | Play | Pause | TogglePlay | StepForward | StepBackward
  | Reset | AnimationDone

fun do_event :: "event \<Rightarrow> controller \<Rightarrow> controller option" where
  "do_event (LoadAlgorithm a t) s = loadAlgorithm a t s"
| "do_event Play s = play s"
| "do_event Pause s = Some (pause s)"
| "do_event TogglePlay s = togglePlay s"
| "do_event StepForward s = stepForward s"
| "do_event StepBackward s = stepBackward s"
| "do_event Reset s = reset s"
| "do_event AnimationDone s = animation_done s"

fun run_events :: "event list \<Rightarrow> controller \<Rightarrow> controller option" where
  "run_events [] s = Some s"
| "run_events (e # es) s = do { s' \<leftarrow> do_event e s; run_events es s' }"

text \<open>The grid the cursor stands for: from solved, the setup moves, then the first \<open>n\<close>
  moves of the algorithm.\<close>

definition grid_at :: "controller \<Rightarrow> nat \<Rightarrow> grid option" where
  "grid_at s n =
     map_option faces
       (applyMoves (setupMoves s @ take n (moves s)) False \<lparr> faces = solved_faces, history = [] \<rparr>)"

text \<open>The cursor is in step with the grid.\<close>

definition synced :: "controller \<Rightarrow> bool" where
  "synced s = (grid_at s (currentStep s) = Some (faces (model s)))"

text \<open>
  Time passes without any call from outside: the running animation completes, the awaiting
  function runs, and so on until no animation is running.
\<close>

function drain :: "controller \<Rightarrow> controller option" where
  "drain s =
     (if running (animator s) = None then Some s
      else (case animation_done s of None \<Rightarrow> None | Some s' \<Rightarrow> drain s'))"
  by pat_completeness auto
termination
proof (relation "measure (\<lambda>s. 2 * (length (moves s) - currentStep s)
          + length (queue (animator s)) + (if running (animator s) = None then 0 else 1))")
  show "wf (measure (\<lambda>s. 2 * (length (moves s) - currentStep s)
          + length (queue (animator s)) + (if running (animator s) = None then 0 else 1)))"
    by simp
next
  fix s s'
  assume r: "running (animator s) \<noteq> None" and d: "animation_done s = Some s'"
  from r obtain mv k where rk: "running (animator s) = Some (mv, k)" by auto
  show "(s', s) \<in> measure (\<lambda>s. 2 * (length (moves s) - currentStep s)
          + length (queue (animator s)) + (if running (animator s) = None then 0 else 1))"
  proof (cases k)
    case AwaitPlay
    with rk d show ?thesis
      by (auto simp: animation_done_def finish_animation_def play_loop_def executeStep_def
          animateMove_def startAnimation_def notifyStep_def notifyPlayState_def move_at_def Let_def
          split: list.splits if_splits option.splits Option.bind_splits)
  next
    case AwaitStepForward
    with rk d show ?thesis
      by (auto simp: animation_done_def finish_animation_def startAnimation_def notifyStep_def
          Let_def split: list.splits if_splits)
  next
    case AwaitStepBackward
    with rk d show ?thesis
      by (auto simp: animation_done_def finish_animation_def startAnimation_def notifyStep_def
          Let_def split: list.splits if_splits)
  qed
qed

declare drain.simps [simp del]

text \<open>A move as the constructor builds it.\<close>

definition valid_move :: "move \<Rightarrow> bool" where
  "valid_move m = (Move (face m) (prime m) (double m) (wide m) = Some m)"

text \<open>Nothing is animating and nothing is queued.\<close>

definition idle_animator :: "animator \<Rightarrow> bool" where
  "idle_animator a = (\<not> isAnimating a \<and> running a = None \<and> queue a = [])"

text \<open>By how many moves the grid is ahead of the cursor: by one while the animation of a
  forward step is running, since the cursor is advanced only after the \<open>await\<close>.\<close>

definition ahead :: "controller \<Rightarrow> nat" where
  "ahead s =
     (case running (animator s) of
        None \<Rightarrow> 0
      | Some (mv, AwaitPlay) \<Rightarrow> 1
      | Some (mv, AwaitStepForward) \<Rightarrow> 1
      | Some (mv, AwaitStepBackward) \<Rightarrow> 0)"

definition ctrl_inv :: "controller \<Rightarrow> bool" where
  "ctrl_inv s =
     (list_all valid_move (moves s) \<and> list_all valid_move (setupMoves s)
      \<and> queue (animator s) = []
      \<and> (isAnimating (animator s) \<longleftrightarrow> running (animator s) \<noteq> None)
      \<and> currentStep s + ahead s \<le> length (moves s)
      \<and> grid_at s (currentStep s + ahead s) = Some (faces (model s)))"

text \<open>
  An event is calm when it does not restart or reposition the playback underneath a running
  animation: \<open>loadAlgorithm\<close>, \<open>reset\<close> and a \<open>play\<close> that starts playing are calm only while
  no animation is running.
\<close>

fun calm_event :: "event \<Rightarrow> controller \<Rightarrow> bool" where
  "calm_event (LoadAlgorithm a t) s = (\<not> isAnimating (animator s))"
| "calm_event Reset s = (\<not> isAnimating (animator s))"
| "calm_event Play s = (isPlaying s \<or> \<not> isAnimating (animator s))"
| "calm_event TogglePlay s = (isPlaying s \<or> \<not> isAnimating (animator s))"
| "calm_event e s = True"

fun calm_run :: "event list \<Rightarrow> controller \<Rightarrow> bool" where
  "calm_run [] s = True"
| "calm_run (e # es) s =
     (calm_event e s \<and> (case do_event e s of None \<Rightarrow> True | Some s' \<Rightarrow> calm_run es s'))"

text \<open>Telling the two kinds of notification apart.\<close>

fun is_step :: "notification \<Rightarrow> bool" where
  "is_step (StepChange i n) = True"
| "is_step (PlayStateChange b) = False"

text \<open>A fresh controller whose two callbacks are installed or not.\<close>

definition fresh_controller :: "bool \<Rightarrow> bool \<Rightarrow> controller" where
  "fresh_controller sc pc = new_controller\<lparr> onStepChange := sc, onPlayStateChange := pc \<rparr>"

section \<open>The progress tracker (ProgressTracker.js)\<close>

text \<open>
  JavaScript values as far as the tracker meets them. An object is given by its own
  properties; a function and the prototype object are opaque.
\<close>

datatype jsvalue =
  JUndefined | JNull | JBool bool | JNumber real | JString string
  | JArray "jsvalue list" | JObject "(string \<times> jsvalue) list" | JFunction string

text \<open>Truthiness, as \<open>||\<close>, \<open>!!\<close> and \<open>filter\<close> test it.\<close>

fun truthy :: "jsvalue \<Rightarrow> bool" where
  "truthy JUndefined = False"
| "truthy JNull = False"
| "truthy (JBool b) = b"
| "truthy (JNumber x) = (x \<noteq> 0)"
| "truthy (JString t) = (t \<noteq> [])"
| "truthy (JArray xs) = True"
| "truthy (JObject ps) = True"
| "truthy (JFunction n) = True"

text \<open>The properties every plain object inherits from \<open>Object.prototype\<close>.\<close>

definition Object_prototype_names :: "string list" where
  "Object_prototype_names =
     [''constructor'', ''hasOwnProperty'', ''isPrototypeOf'', ''propertyIsEnumerable'',
      ''toLocaleString'', ''toString'', ''valueOf'', ''__defineGetter__'', ''__defineSetter__'',
      ''__lookupGetter__'', ''__lookupSetter__'', ''__proto__'']"

text \<open>
  The property read \<open>data[id]\<close>. On a plain object it finds an own property first and an
  inherited one next (methods, and the prototype itself under \<open>__proto__\<close>). On the other
  values (arrays and wrapped primitives) the read is the language's and is the parameter
  \<open>bp\<close>. The built-in \<open>JSON.parse\<close> is the parameter \<open>jp\<close>, \<open>None\<close> for a \<open>SyntaxError\<close>.
\<close>

definition get_prop :: "(jsvalue \<Rightarrow> string \<Rightarrow> jsvalue) \<Rightarrow> jsvalue \<Rightarrow> string \<Rightarrow> jsvalue" where
  "get_prop bp v k =
     (case v of
        JObject ps \<Rightarrow>
          (case map_of ps k of
             Some x \<Rightarrow> x
           | None \<Rightarrow>
               if k = ''__proto__'' then JObject []
               else if k \<in> set Object_prototype_names then JFunction k
               else JUndefined)
      | _ \<Rightarrow> bp v k)"

text \<open>
  \<open>_getAll\<close>. The argument \<open>item\<close> is what \<open>localStorage.getItem(STORAGE_KEY)\<close> returns:
  \<open>None\<close> is \<open>null\<close>, for an absent key, and \<open>JSON.parse(null)\<close> is \<open>null\<close>. A
  \<open>SyntaxError\<close> is caught.
\<close>

definition getAll :: "(string \<Rightarrow> jsvalue option) \<Rightarrow> string option \<Rightarrow> jsvalue" where
  "getAll jp item =
     (case item of
        None \<Rightarrow> JObject []
      | Some t \<Rightarrow>
          (case jp t of
             None \<Rightarrow> JObject []
           | Some v \<Rightarrow> if truthy v then v else JObject []))"

definition isCompleted ::
  "(string \<Rightarrow> jsvalue option) \<Rightarrow> (jsvalue \<Rightarrow> string \<Rightarrow> jsvalue) \<Rightarrow> string option \<Rightarrow> string \<Rightarrow> bool" where
  "isCompleted jp bp item ident = truthy (get_prop bp (getAll jp item) ident)"

definition countCompleted ::
  "(string \<Rightarrow> jsvalue option) \<Rightarrow> (jsvalue \<Rightarrow> string \<Rightarrow> jsvalue) \<Rightarrow> string option \<Rightarrow> string list \<Rightarrow> nat" where
  "countCompleted jp bp item ids =
     (let data = getAll jp item in length (filter (\<lambda>ident. truthy (get_prop bp data ident)) ids))"

definition getProgress ::
  "(string \<Rightarrow> jsvalue option) \<Rightarrow> (jsvalue \<Rightarrow> string \<Rightarrow> jsvalue) \<Rightarrow> string option \<Rightarrow> string list \<Rightarrow> real" where
  "getProgress jp bp item ids =
     (if length ids = 0 then 0
      else real (countCompleted jp bp item ids) / real (length ids))"

section \<open>Evaluating moves on a grid written out\<close>

lemma mk_grid_upd:
  "(mk_grid u d f b r l)(''U'' \<mapsto> x) = mk_grid x d f b r l"
  "(mk_grid u d f b r l)(''D'' \<mapsto> x) = mk_grid u x f b r l"
  "(mk_grid u d f b r l)(''F'' \<mapsto> x) = mk_grid u d x b r l"
  "(mk_grid u d f b r l)(''B'' \<mapsto> x) = mk_grid u d f x r l"
  "(mk_grid u d f b r l)(''R'' \<mapsto> x) = mk_grid u d f b x l"
  "(mk_grid u d f b r l)(''L'' \<mapsto> x) = mk_grid u d f b r x"
  by (auto simp: mk_grid_def fun_eq_iff)

lemma mk_grid_app:
  "mk_grid u d f b r l ''U'' = Some u"
  "mk_grid u d f b r l ''D'' = Some d"
  "mk_grid u d f b r l ''F'' = Some f"
  "mk_grid u d f b r l ''B'' = Some b"
  "mk_grid u d f b r l ''R'' = Some r"
  "mk_grid u d f b r l ''L'' = Some l"
  by (simp_all add: mk_grid_def)

lemma mk_grid_inj:
  "mk_grid u d f b r l = mk_grid u' d' f' b' r' l'
     \<longleftrightarrow> u = u' \<and> d = d' \<and> f = f' \<and> b = b' \<and> r = r' \<and> l = l'"
proof
  assume e: "mk_grid u d f b r l = mk_grid u' d' f' b' r' l'"
  show "u = u' \<and> d = d' \<and> f = f' \<and> b = b' \<and> r = r' \<and> l = l'"
    using fun_cong[OF e, of "''U''"] fun_cong[OF e, of "''D''"] fun_cong[OF e, of "''F''"]
      fun_cong[OF e, of "''B''"] fun_cong[OF e, of "''R''"] fun_cong[OF e, of "''L''"]
    by (simp add: mk_grid_app)
qed simp

lemma dom_mk_grid: "dom (mk_grid u d f b r l) = set FACE_NAMES"
  by (auto simp: mk_grid_def FACE_NAMES_def dom_def)

lemma grid_ok_mk_grid:
  "grid_ok (mk_grid u d f b r l) \<longleftrightarrow>
     length u = 9 \<and> length d = 9 \<and> length f = 9 \<and> length b = 9 \<and> length r = 9 \<and> length l = 9"
  by (simp add: grid_ok_def dom_mk_grid) (simp add: FACE_NAMES_def mk_grid_app)

lemma nine_expand:
  assumes "length xs = 9"
  shows "xs = [xs ! 0, xs ! 1, xs ! 2, xs ! 3, xs ! 4, xs ! 5, xs ! 6, xs ! 7, xs ! 8]"
proof (rule nth_equalityI)
  show "length xs = length [xs ! 0, xs ! 1, xs ! 2, xs ! 3, xs ! 4, xs ! 5, xs ! 6, xs ! 7, xs ! 8]"
    using assms by simp
next
  fix i assume "i < length xs"
  then have "i \<in> {0, 1, 2, 3, 4, 5, 6, 7, 8}" using assms by auto
  then show "xs ! i = [xs ! 0, xs ! 1, xs ! 2, xs ! 3, xs ! 4, xs ! 5, xs ! 6, xs ! 7, xs ! 8] ! i"
    by auto
qed

lemma grid_ok_face:
  assumes "grid_ok g" "k \<in> set FACE_NAMES"
  shows "g k = Some [the (g k) ! 0, the (g k) ! 1, the (g k) ! 2, the (g k) ! 3, the (g k) ! 4,
                     the (g k) ! 5, the (g k) ! 6, the (g k) ! 7, the (g k) ! 8]"
proof -
  from assms obtain xs where xs: "g k = Some xs" "length xs = 9"
    by (auto simp: grid_ok_def list_all_iff)
  show ?thesis using nine_expand[OF xs(2)] xs(1) by simp
qed

lemma grid_ok_expand:
  assumes "grid_ok g"
  shows "g = mk_grid [the (g ''U'') ! 0, the (g ''U'') ! 1, the (g ''U'') ! 2, the (g ''U'') ! 3, the (g ''U'') ! 4, the (g ''U'') ! 5, the (g ''U'') ! 6, the (g ''U'') ! 7, the (g ''U'') ! 8]
      [the (g ''D'') ! 0, the (g ''D'') ! 1, the (g ''D'') ! 2, the (g ''D'') ! 3, the (g ''D'') ! 4, the (g ''D'') ! 5, the (g ''D'') ! 6, the (g ''D'') ! 7, the (g ''D'') ! 8]
      [the (g ''F'') ! 0, the (g ''F'') ! 1, the (g ''F'') ! 2, the (g ''F'') ! 3, the (g ''F'') ! 4, the (g ''F'') ! 5, the (g ''F'') ! 6, the (g ''F'') ! 7, the (g ''F'') ! 8]
      [the (g ''B'') ! 0, the (g ''B'') ! 1, the (g ''B'') ! 2, the (g ''B'') ! 3, the (g ''B'') ! 4, the (g ''B'') ! 5, the (g ''B'') ! 6, the (g ''B'') ! 7, the (g ''B'') ! 8]
      [the (g ''R'') ! 0, the (g ''R'') ! 1, the (g ''R'') ! 2, the (g ''R'') ! 3, the (g ''R'') ! 4, the (g ''R'') ! 5, the (g ''R'') ! 6, the (g ''R'') ! 7, the (g ''R'') ! 8]
      [the (g ''L'') ! 0, the (g ''L'') ! 1, the (g ''L'') ! 2, the (g ''L'') ! 3, the (g ''L'') ! 4, the (g ''L'') ! 5, the (g ''L'') ! 6, the (g ''L'') ! 7, the (g ''L'') ! 8]"
    (is "g = ?e")
proof
  fix k
  show "g k = ?e k"
  proof (cases "k \<in> set FACE_NAMES")
    case True
    then show ?thesis
      using grid_ok_face[OF assms, of k]
      by (auto simp: FACE_NAMES_def mk_grid_app)
  next
    case False
    then have "g k = None" using assms by (auto simp: grid_ok_def)
    with False show ?thesis by (simp add: FACE_NAMES_def mk_grid_def)
  qed
qed

lemma repeat_cycle4_numeral:
  "repeat_cycle4 1 c g = cycle4 c g"
  "repeat_cycle4 2 c g = do { g1 \<leftarrow> cycle4 c g; cycle4 c g1 }"
  "repeat_cycle4 3 c g = do { g1 \<leftarrow> cycle4 c g; g2 \<leftarrow> cycle4 c g1; cycle4 c g2 }"
  by (simp_all add: numeral_2_eq_2 numeral_3_eq_3 split: Option.bind_split)

lemmas move_evals =
  applyMove_grid_def inverse_move_def Move_def toUpperCase_def upper_char_def is_lower_def
  AXIS_MAP_def rotateFaceCW_def rotateFaceCCW_def rotateFace180_def assign_all_def
  applyEdgeCycle_def EDGE_CYCLES_def applyMiddleCycle_def MIDDLE_CYCLES_def
  getSticker_def setSticker_def js_nth_def js_set_def cycle4_def mk_grid_upd mk_grid_app
  repeat_cycle4_numeral

text \<open>A move followed by its inverse, face by face, on a grid of 54 arbitrary stickers.\<close>

lemma undo_R:
  assumes "face m = ''R''"
  shows "do { g' \<leftarrow> applyMove_grid m (mk_grid [u0, u1, u2, u3, u4, u5, u6, u7, u8] [d0, d1, d2, d3, d4, d5, d6, d7, d8] [f0, f1, f2, f3, f4, f5, f6, f7, f8] [b0, b1, b2, b3, b4, b5, b6, b7, b8] [r0, r1, r2, r3, r4, r5, r6, r7, r8] [l0, l1, l2, l3, l4, l5, l6, l7, l8]);
              m' \<leftarrow> inverse_move m; applyMove_grid m' g' }
         = Some (mk_grid [u0, u1, u2, u3, u4, u5, u6, u7, u8] [d0, d1, d2, d3, d4, d5, d6, d7, d8] [f0, f1, f2, f3, f4, f5, f6, f7, f8] [b0, b1, b2, b3, b4, b5, b6, b7, b8] [r0, r1, r2, r3, r4, r5, r6, r7, r8] [l0, l1, l2, l3, l4, l5, l6, l7, l8])"
  using assms by (cases "double m"; cases "prime m"; cases "wide m"; simp add: move_evals)

lemma undo_L:
  assumes "face m = ''L''"
  shows "do { g' \<leftarrow> applyMove_grid m (mk_grid [u0, u1, u2, u3, u4, u5, u6, u7, u8] [d0, d1, d2, d3, d4, d5, d6, d7, d8] [f0, f1, f2, f3, f4, f5, f6, f7, f8] [b0, b1, b2, b3, b4, b5, b6, b7, b8] [r0, r1, r2, r3, r4, r5, r6, r7, r8] [l0, l1, l2, l3, l4, l5, l6, l7, l8]);
              m' \<leftarrow> inverse_move m; applyMove_grid m' g' }
         = Some (mk_grid [u0, u1, u2, u3, u4, u5, u6, u7, u8] [d0, d1, d2, d3, d4, d5, d6, d7, d8] [f0, f1, f2, f3, f4, f5, f6, f7, f8] [b0, b1, b2, b3, b4, b5, b6, b7, b8] [r0, r1, r2, r3, r4, r5, r6, r7, r8] [l0, l1, l2, l3, l4, l5, l6, l7, l8])"
  using assms by (cases "double m"; cases "prime m"; cases "wide m"; simp add: move_evals)

lemma undo_U:
  assumes "face m = ''U''"
  shows "do { g' \<leftarrow> applyMove_grid m (mk_grid [u0, u1, u2, u3, u4, u5, u6, u7, u8] [d0, d1, d2, d3, d4, d5, d6, d7, d8] [f0, f1, f2, f3, f4, f5, f6, f7, f8] [b0, b1, b2, b3, b4, b5, b6, b7, b8] [r0, r1, r2, r3, r4, r5, r6, r7, r8] [l0, l1, l2, l3, l4, l5, l6, l7, l8]);
              m' \<leftarrow> inverse_move m; applyMove_grid m' g' }
         = Some (mk_grid [u0, u1, u2, u3, u4, u5, u6, u7, u8] [d0, d1, d2, d3, d4, d5, d6, d7, d8] [f0, f1, f2, f3, f4, f5, f6, f7, f8] [b0, b1, b2, b3, b4, b5, b6, b7, b8] [r0, r1, r2, r3, r4, r5, r6, r7, r8] [l0, l1, l2, l3, l4, l5, l6, l7, l8])"
  using assms by (cases "double m"; cases "prime m"; cases "wide m"; simp add: move_evals)

lemma undo_D:
  assumes "face m = ''D''"
  shows "do { g' \<leftarrow> applyMove_grid m (mk_grid [u0, u1, u2, u3, u4, u5, u6, u7, u8] [d0, d1, d2, d3, d4, d5, d6, d7, d8] [f0, f1, f2, f3, f4, f5, f6, f7, f8] [b0, b1, b2, b3, b4, b5, b6, b7, b8] [r0, r1, r2, r3, r4, r5, r6, r7, r8] [l0, l1, l2, l3, l4, l5, l6, l7, l8]);
              m' \<leftarrow> inverse_move m; applyMove_grid m' g' }
         = Some (mk_grid [u0, u1, u2, u3, u4, u5, u6, u7, u8] [d0, d1, d2, d3, d4, d5, d6, d7, d8] [f0, f1, f2, f3, f4, f5, f6, f7, f8] [b0, b1, b2, b3, b4, b5, b6, b7, b8] [r0, r1, r2, r3, r4, r5, r6, r7, r8] [l0, l1, l2, l3, l4, l5, l6, l7, l8])"
  using assms by (cases "double m"; cases "prime m"; cases "wide m"; simp add: move_evals)

lemma undo_F:
  assumes "face m = ''F''"
  shows "do { g' \<leftarrow> applyMove_grid m (mk_grid [u0, u1, u2, u3, u4, u5, u6, u7, u8] [d0, d1, d2, d3, d4, d5, d6, d7, d8] [f0, f1, f2, f3, f4, f5, f6, f7, f8] [b0, b1, b2, b3, b4, b5, b6, b7, b8] [r0, r1, r2, r3, r4, r5, r6, r7, r8] [l0, l1, l2, l3, l4, l5, l6, l7, l8]);
              m' \<leftarrow> inverse_move m; applyMove_grid m' g' }
         = Some (mk_grid [u0, u1, u2, u3, u4, u5, u6, u7, u8] [d0, d1, d2, d3, d4, d5, d6, d7, d8] [f0, f1, f2, f3, f4, f5, f6, f7, f8] [b0, b1, b2, b3, b4, b5, b6, b7, b8] [r0, r1, r2, r3, r4, r5, r6, r7, r8] [l0, l1, l2, l3, l4, l5, l6, l7, l8])"
  using assms by (cases "double m"; cases "prime m"; cases "wide m"; simp add: move_evals)

lemma undo_B:
  assumes "face m = ''B''"
  shows "do { g' \<leftarrow> applyMove_grid m (mk_grid [u0, u1, u2, u3, u4, u5, u6, u7, u8] [d0, d1, d2, d3, d4, d5, d6, d7, d8] [f0, f1, f2, f3, f4, f5, f6, f7, f8] [b0, b1, b2, b3, b4, b5, b6, b7, b8] [r0, r1, r2, r3, r4, r5, r6, r7, r8] [l0, l1, l2, l3, l4, l5, l6, l7, l8]);
              m' \<leftarrow> inverse_move m; applyMove_grid m' g' }
         = Some (mk_grid [u0, u1, u2, u3, u4, u5, u6, u7, u8] [d0, d1, d2, d3, d4, d5, d6, d7, d8] [f0, f1, f2, f3, f4, f5, f6, f7, f8] [b0, b1, b2, b3, b4, b5, b6, b7, b8] [r0, r1, r2, r3, r4, r5, r6, r7, r8] [l0, l1, l2, l3, l4, l5, l6, l7, l8])"
  using assms by (cases "double m"; cases "prime m"; cases "wide m"; simp add: move_evals)

text \<open>A half turn against two quarter turns.\<close>

lemma half_R:
  assumes "face h = ''R''" "double h" "face q = ''R''" "\<not> double q" "\<not> prime q" "wide q = wide h"
  shows "applyMove_grid h (mk_grid [u0, u1, u2, u3, u4, u5, u6, u7, u8] [d0, d1, d2, d3, d4, d5, d6, d7, d8] [f0, f1, f2, f3, f4, f5, f6, f7, f8] [b0, b1, b2, b3, b4, b5, b6, b7, b8] [r0, r1, r2, r3, r4, r5, r6, r7, r8] [l0, l1, l2, l3, l4, l5, l6, l7, l8])
         = do { g' \<leftarrow> applyMove_grid q (mk_grid [u0, u1, u2, u3, u4, u5, u6, u7, u8] [d0, d1, d2, d3, d4, d5, d6, d7, d8] [f0, f1, f2, f3, f4, f5, f6, f7, f8] [b0, b1, b2, b3, b4, b5, b6, b7, b8] [r0, r1, r2, r3, r4, r5, r6, r7, r8] [l0, l1, l2, l3, l4, l5, l6, l7, l8]); applyMove_grid q g' }"
    and "applyMove_grid h (mk_grid [u0, u1, u2, u3, u4, u5, u6, u7, u8] [d0, d1, d2, d3, d4, d5, d6, d7, d8] [f0, f1, f2, f3, f4, f5, f6, f7, f8] [b0, b1, b2, b3, b4, b5, b6, b7, b8] [r0, r1, r2, r3, r4, r5, r6, r7, r8] [l0, l1, l2, l3, l4, l5, l6, l7, l8]) \<noteq> None"
  using assms by (cases "wide h"; simp add: move_evals)+

lemma half_L:
  assumes "face h = ''L''" "double h" "face q = ''L''" "\<not> double q" "\<not> prime q" "wide q = wide h"
  shows "applyMove_grid h (mk_grid [u0, u1, u2, u3, u4, u5, u6, u7, u8] [d0, d1, d2, d3, d4, d5, d6, d7, d8] [f0, f1, f2, f3, f4, f5, f6, f7, f8] [b0, b1, b2, b3, b4, b5, b6, b7, b8] [r0, r1, r2, r3, r4, r5, r6, r7, r8] [l0, l1, l2, l3, l4, l5, l6, l7, l8])
         = do { g' \<leftarrow> applyMove_grid q (mk_grid [u0, u1, u2, u3, u4, u5, u6, u7, u8] [d0, d1, d2, d3, d4, d5, d6, d7, d8] [f0, f1, f2, f3, f4, f5, f6, f7, f8] [b0, b1, b2, b3, b4, b5, b6, b7, b8] [r0, r1, r2, r3, r4, r5, r6, r7, r8] [l0, l1, l2, l3, l4, l5, l6, l7, l8]); applyMove_grid q g' }"
    and "applyMove_grid h (mk_grid [u0, u1, u2, u3, u4, u5, u6, u7, u8] [d0, d1, d2, d3, d4, d5, d6, d7, d8] [f0, f1, f2, f3, f4, f5, f6, f7, f8] [b0, b1, b2, b3, b4, b5, b6, b7, b8] [r0, r1, r2, r3, r4, r5, r6, r7, r8] [l0, l1, l2, l3, l4, l5, l6, l7, l8]) \<noteq> None"
  using assms by (cases "wide h"; simp add: move_evals)+

lemma half_U:
  assumes "face h = ''U''" "double h" "face q = ''U''" "\<not> double q" "\<not> prime q" "wide q = wide h"
  shows "applyMove_grid h (mk_grid [u0, u1, u2, u3, u4, u5, u6, u7, u8] [d0, d1, d2, d3, d4, d5, d6, d7, d8] [f0, f1, f2, f3, f4, f5, f6, f7, f8] [b0, b1, b2, b3, b4, b5, b6, b7, b8] [r0, r1, r2, r3, r4, r5, r6, r7, r8] [l0, l1, l2, l3, l4, l5, l6, l7, l8])
         = do { g' \<leftarrow> applyMove_grid q (mk_grid [u0, u1, u2, u3, u4, u5, u6, u7, u8] [d0, d1, d2, d3, d4, d5, d6, d7, d8] [f0, f1, f2, f3, f4, f5, f6, f7, f8] [b0, b1, b2, b3, b4, b5, b6, b7, b8] [r0, r1, r2, r3, r4, r5, r6, r7, r8] [l0, l1, l2, l3, l4, l5, l6, l7, l8]); applyMove_grid q g' }"
    and "applyMove_grid h (mk_grid [u0, u1, u2, u3, u4, u5, u6, u7, u8] [d0, d1, d2, d3, d4, d5, d6, d7, d8] [f0, f1, f2, f3, f4, f5, f6, f7, f8] [b0, b1, b2, b3, b4, b5, b6, b7, b8] [r0, r1, r2, r3, r4, r5, r6, r7, r8] [l0, l1, l2, l3, l4, l5, l6, l7, l8]) \<noteq> None"
  using assms by (cases "wide h"; simp add: move_evals)+

lemma half_D:
  assumes "face h = ''D''" "double h" "face q = ''D''" "\<not> double q" "\<not> prime q" "wide q = wide h"
  shows "applyMove_grid h (mk_grid [u0, u1, u2, u3, u4, u5, u6, u7, u8] [d0, d1, d2, d3, d4, d5, d6, d7, d8] [f0, f1, f2, f3, f4, f5, f6, f7, f8] [b0, b1, b2, b3, b4, b5, b6, b7, b8] [r0, r1, r2, r3, r4, r5, r6, r7, r8] [l0, l1, l2, l3, l4, l5, l6, l7, l8])
         = do { g' \<leftarrow> applyMove_grid q (mk_grid [u0, u1, u2, u3, u4, u5, u6, u7, u8] [d0, d1, d2, d3, d4, d5, d6, d7, d8] [f0, f1, f2, f3, f4, f5, f6, f7, f8] [b0, b1, b2, b3, b4, b5, b6, b7, b8] [r0, r1, r2, r3, r4, r5, r6, r7, r8] [l0, l1, l2, l3, l4, l5, l6, l7, l8]); applyMove_grid q g' }"
    and "applyMove_grid h (mk_grid [u0, u1, u2, u3, u4, u5, u6, u7, u8] [d0, d1, d2, d3, d4, d5, d6, d7, d8] [f0, f1, f2, f3, f4, f5, f6, f7, f8] [b0, b1, b2, b3, b4, b5, b6, b7, b8] [r0, r1, r2, r3, r4, r5, r6, r7, r8] [l0, l1, l2, l3, l4, l5, l6, l7, l8]) \<noteq> None"
  using assms by (cases "wide h"; simp add: move_evals)+

lemma half_F:
  assumes "face h = ''F''" "double h" "face q = ''F''" "\<not> double q" "\<not> prime q" "wide q = wide h"
  shows "applyMove_grid h (mk_grid [u0, u1, u2, u3, u4, u5, u6, u7, u8] [d0, d1, d2, d3, d4, d5, d6, d7, d8] [f0, f1, f2, f3, f4, f5, f6, f7, f8] [b0, b1, b2, b3, b4, b5, b6, b7, b8] [r0, r1, r2, r3, r4, r5, r6, r7, r8] [l0, l1, l2, l3, l4, l5, l6, l7, l8])
         = do { g' \<leftarrow> applyMove_grid q (mk_grid [u0, u1, u2, u3, u4, u5, u6, u7, u8] [d0, d1, d2, d3, d4, d5, d6, d7, d8] [f0, f1, f2, f3, f4, f5, f6, f7, f8] [b0, b1, b2, b3, b4, b5, b6, b7, b8] [r0, r1, r2, r3, r4, r5, r6, r7, r8] [l0, l1, l2, l3, l4, l5, l6, l7, l8]); applyMove_grid q g' }"
    and "applyMove_grid h (mk_grid [u0, u1, u2, u3, u4, u5, u6, u7, u8] [d0, d1, d2, d3, d4, d5, d6, d7, d8] [f0, f1, f2, f3, f4, f5, f6, f7, f8] [b0, b1, b2, b3, b4, b5, b6, b7, b8] [r0, r1, r2, r3, r4, r5, r6, r7, r8] [l0, l1, l2, l3, l4, l5, l6, l7, l8]) \<noteq> None"
  using assms by (cases "wide h"; simp add: move_evals)+

lemma half_B:
  assumes "face h = ''B''" "double h" "face q = ''B''" "\<not> double q" "\<not> prime q" "wide q = wide h"
  shows "applyMove_grid h (mk_grid [u0, u1, u2, u3, u4, u5, u6, u7, u8] [d0, d1, d2, d3, d4, d5, d6, d7, d8] [f0, f1, f2, f3, f4, f5, f6, f7, f8] [b0, b1, b2, b3, b4, b5, b6, b7, b8] [r0, r1, r2, r3, r4, r5, r6, r7, r8] [l0, l1, l2, l3, l4, l5, l6, l7, l8])
         = do { g' \<leftarrow> applyMove_grid q (mk_grid [u0, u1, u2, u3, u4, u5, u6, u7, u8] [d0, d1, d2, d3, d4, d5, d6, d7, d8] [f0, f1, f2, f3, f4, f5, f6, f7, f8] [b0, b1, b2, b3, b4, b5, b6, b7, b8] [r0, r1, r2, r3, r4, r5, r6, r7, r8] [l0, l1, l2, l3, l4, l5, l6, l7, l8]); applyMove_grid q g' }"
    and "applyMove_grid h (mk_grid [u0, u1, u2, u3, u4, u5, u6, u7, u8] [d0, d1, d2, d3, d4, d5, d6, d7, d8] [f0, f1, f2, f3, f4, f5, f6, f7, f8] [b0, b1, b2, b3, b4, b5, b6, b7, b8] [r0, r1, r2, r3, r4, r5, r6, r7, r8] [l0, l1, l2, l3, l4, l5, l6, l7, l8]) \<noteq> None"
  using assms by (cases "wide h"; simp add: move_evals)+

text \<open>A move keeps the grid well formed.\<close>

lemma keep_R:
  assumes "face m = ''R''"
  shows "case applyMove_grid m (mk_grid [u0, u1, u2, u3, u4, u5, u6, u7, u8] [d0, d1, d2, d3, d4, d5, d6, d7, d8] [f0, f1, f2, f3, f4, f5, f6, f7, f8] [b0, b1, b2, b3, b4, b5, b6, b7, b8] [r0, r1, r2, r3, r4, r5, r6, r7, r8] [l0, l1, l2, l3, l4, l5, l6, l7, l8])
         of None \<Rightarrow> False | Some g' \<Rightarrow> grid_ok g'"
  using assms
  by (cases "double m"; cases "prime m"; cases "wide m"; simp add: move_evals grid_ok_mk_grid)

lemma keep_L:
  assumes "face m = ''L''"
  shows "case applyMove_grid m (mk_grid [u0, u1, u2, u3, u4, u5, u6, u7, u8] [d0, d1, d2, d3, d4, d5, d6, d7, d8] [f0, f1, f2, f3, f4, f5, f6, f7, f8] [b0, b1, b2, b3, b4, b5, b6, b7, b8] [r0, r1, r2, r3, r4, r5, r6, r7, r8] [l0, l1, l2, l3, l4, l5, l6, l7, l8])
         of None \<Rightarrow> False | Some g' \<Rightarrow> grid_ok g'"
  using assms
  by (cases "double m"; cases "prime m"; cases "wide m"; simp add: move_evals grid_ok_mk_grid)

lemma keep_U:
  assumes "face m = ''U''"
  shows "case applyMove_grid m (mk_grid [u0, u1, u2, u3, u4, u5, u6, u7, u8] [d0, d1, d2, d3, d4, d5, d6, d7, d8] [f0, f1, f2, f3, f4, f5, f6, f7, f8] [b0, b1, b2, b3, b4, b5, b6, b7, b8] [r0, r1, r2, r3, r4, r5, r6, r7, r8] [l0, l1, l2, l3, l4, l5, l6, l7, l8])
         of None \<Rightarrow> False | Some g' \<Rightarrow> grid_ok g'"
  using assms
  by (cases "double m"; cases "prime m"; cases "wide m"; simp add: move_evals grid_ok_mk_grid)

lemma keep_D:
  assumes "face m = ''D''"
  shows "case applyMove_grid m (mk_grid [u0, u1, u2, u3, u4, u5, u6, u7, u8] [d0, d1, d2, d3, d4, d5, d6, d7, d8] [f0, f1, f2, f3, f4, f5, f6, f7, f8] [b0, b1, b2, b3, b4, b5, b6, b7, b8] [r0, r1, r2, r3, r4, r5, r6, r7, r8] [l0, l1, l2, l3, l4, l5, l6, l7, l8])
         of None \<Rightarrow> False | Some g' \<Rightarrow> grid_ok g'"
  using assms
  by (cases "double m"; cases "prime m"; cases "wide m"; simp add: move_evals grid_ok_mk_grid)

lemma keep_F:
  assumes "face m = ''F''"
  shows "case applyMove_grid m (mk_grid [u0, u1, u2, u3, u4, u5, u6, u7, u8] [d0, d1, d2, d3, d4, d5, d6, d7, d8] [f0, f1, f2, f3, f4, f5, f6, f7, f8] [b0, b1, b2, b3, b4, b5, b6, b7, b8] [r0, r1, r2, r3, r4, r5, r6, r7, r8] [l0, l1, l2, l3, l4, l5, l6, l7, l8])
         of None \<Rightarrow> False | Some g' \<Rightarrow> grid_ok g'"
  using assms
  by (cases "double m"; cases "prime m"; cases "wide m"; simp add: move_evals grid_ok_mk_grid)

lemma keep_B:
  assumes "face m = ''B''"
  shows "case applyMove_grid m (mk_grid [u0, u1, u2, u3, u4, u5, u6, u7, u8] [d0, d1, d2, d3, d4, d5, d6, d7, d8] [f0, f1, f2, f3, f4, f5, f6, f7, f8] [b0, b1, b2, b3, b4, b5, b6, b7, b8] [r0, r1, r2, r3, r4, r5, r6, r7, r8] [l0, l1, l2, l3, l4, l5, l6, l7, l8])
         of None \<Rightarrow> False | Some g' \<Rightarrow> grid_ok g'"
  using assms
  by (cases "double m"; cases "prime m"; cases "wide m"; simp add: move_evals grid_ok_mk_grid)


lemma undo_explicit:
  assumes "face m \<in> set FACES"
  shows "do { g' \<leftarrow> applyMove_grid m (mk_grid [u0, u1, u2, u3, u4, u5, u6, u7, u8] [d0, d1, d2, d3, d4, d5, d6, d7, d8] [f0, f1, f2, f3, f4, f5, f6, f7, f8] [b0, b1, b2, b3, b4, b5, b6, b7, b8] [r0, r1, r2, r3, r4, r5, r6, r7, r8] [l0, l1, l2, l3, l4, l5, l6, l7, l8]);
              m' \<leftarrow> inverse_move m; applyMove_grid m' g' }
         = Some (mk_grid [u0, u1, u2, u3, u4, u5, u6, u7, u8] [d0, d1, d2, d3, d4, d5, d6, d7, d8] [f0, f1, f2, f3, f4, f5, f6, f7, f8] [b0, b1, b2, b3, b4, b5, b6, b7, b8] [r0, r1, r2, r3, r4, r5, r6, r7, r8] [l0, l1, l2, l3, l4, l5, l6, l7, l8])"
proof -
  from assms(1) consider "face m = ''R''" | "face m = ''L''" | "face m = ''U''" | "face m = ''D''"
    | "face m = ''F''" | "face m = ''B''"
    by (auto simp: FACES_def)
  then show ?thesis
    by cases (erule undo_R undo_L undo_U undo_D undo_F undo_B)+
qed

lemma keep_explicit:
  assumes "face m \<in> set FACES"
  shows "case applyMove_grid m (mk_grid [u0, u1, u2, u3, u4, u5, u6, u7, u8] [d0, d1, d2, d3, d4, d5, d6, d7, d8] [f0, f1, f2, f3, f4, f5, f6, f7, f8] [b0, b1, b2, b3, b4, b5, b6, b7, b8] [r0, r1, r2, r3, r4, r5, r6, r7, r8] [l0, l1, l2, l3, l4, l5, l6, l7, l8])
         of None \<Rightarrow> False | Some g' \<Rightarrow> grid_ok g'"
proof -
  from assms(1) consider "face m = ''R''" | "face m = ''L''" | "face m = ''U''" | "face m = ''D''"
    | "face m = ''F''" | "face m = ''B''"
    by (auto simp: FACES_def)
  then show ?thesis
    by cases (erule keep_R keep_L keep_U keep_D keep_F keep_B)+
qed

lemma half_explicit:
  assumes "face h \<in> set FACES" "double h" "face q = face h" "\<not> double q" "\<not> prime q" "wide q = wide h"
  shows "applyMove_grid h (mk_grid [u0, u1, u2, u3, u4, u5, u6, u7, u8] [d0, d1, d2, d3, d4, d5, d6, d7, d8] [f0, f1, f2, f3, f4, f5, f6, f7, f8] [b0, b1, b2, b3, b4, b5, b6, b7, b8] [r0, r1, r2, r3, r4, r5, r6, r7, r8] [l0, l1, l2, l3, l4, l5, l6, l7, l8])
         = do { g' \<leftarrow> applyMove_grid q (mk_grid [u0, u1, u2, u3, u4, u5, u6, u7, u8] [d0, d1, d2, d3, d4, d5, d6, d7, d8] [f0, f1, f2, f3, f4, f5, f6, f7, f8] [b0, b1, b2, b3, b4, b5, b6, b7, b8] [r0, r1, r2, r3, r4, r5, r6, r7, r8] [l0, l1, l2, l3, l4, l5, l6, l7, l8]); applyMove_grid q g' }"
    and "applyMove_grid h (mk_grid [u0, u1, u2, u3, u4, u5, u6, u7, u8] [d0, d1, d2, d3, d4, d5, d6, d7, d8] [f0, f1, f2, f3, f4, f5, f6, f7, f8] [b0, b1, b2, b3, b4, b5, b6, b7, b8] [r0, r1, r2, r3, r4, r5, r6, r7, r8] [l0, l1, l2, l3, l4, l5, l6, l7, l8]) \<noteq> None"
proof -
  from assms(1) consider "face h = ''R''" | "face h = ''L''" | "face h = ''U''" | "face h = ''D''"
    | "face h = ''F''" | "face h = ''B''"
    by (auto simp: FACES_def)
  then show "applyMove_grid h (mk_grid [u0, u1, u2, u3, u4, u5, u6, u7, u8] [d0, d1, d2, d3, d4, d5, d6, d7, d8] [f0, f1, f2, f3, f4, f5, f6, f7, f8] [b0, b1, b2, b3, b4, b5, b6, b7, b8] [r0, r1, r2, r3, r4, r5, r6, r7, r8] [l0, l1, l2, l3, l4, l5, l6, l7, l8])
         = do { g' \<leftarrow> applyMove_grid q (mk_grid [u0, u1, u2, u3, u4, u5, u6, u7, u8] [d0, d1, d2, d3, d4, d5, d6, d7, d8] [f0, f1, f2, f3, f4, f5, f6, f7, f8] [b0, b1, b2, b3, b4, b5, b6, b7, b8] [r0, r1, r2, r3, r4, r5, r6, r7, r8] [l0, l1, l2, l3, l4, l5, l6, l7, l8]); applyMove_grid q g' }"
    using assms(2-)
    by cases (simp_all add: half_R(1) half_L(1) half_U(1) half_D(1) half_F(1) half_B(1))
  from assms(1) consider "face h = ''R''" | "face h = ''L''" | "face h = ''U''" | "face h = ''D''"
    | "face h = ''F''" | "face h = ''B''"
    by (auto simp: FACES_def)
  then show "applyMove_grid h (mk_grid [u0, u1, u2, u3, u4, u5, u6, u7, u8] [d0, d1, d2, d3, d4, d5, d6, d7, d8] [f0, f1, f2, f3, f4, f5, f6, f7, f8] [b0, b1, b2, b3, b4, b5, b6, b7, b8] [r0, r1, r2, r3, r4, r5, r6, r7, r8] [l0, l1, l2, l3, l4, l5, l6, l7, l8]) \<noteq> None"
    using assms(2-)
    by cases (simp_all add: half_R(2) half_L(2) half_U(2) half_D(2) half_F(2) half_B(2))
qed

lemma grid_ok_cases:
  assumes "grid_ok g"
  obtains u0 u1 u2 u3 u4 u5 u6 u7 u8 d0 d1 d2 d3 d4 d5 d6 d7 d8 f0 f1 f2 f3 f4 f5 f6 f7 f8 b0 b1 b2 b3 b4 b5 b6 b7 b8 r0 r1 r2 r3 r4 r5 r6 r7 r8 l0 l1 l2 l3 l4 l5 l6 l7 l8
  where "g = (mk_grid [u0, u1, u2, u3, u4, u5, u6, u7, u8] [d0, d1, d2, d3, d4, d5, d6, d7, d8] [f0, f1, f2, f3, f4, f5, f6, f7, f8] [b0, b1, b2, b3, b4, b5, b6, b7, b8] [r0, r1, r2, r3, r4, r5, r6, r7, r8] [l0, l1, l2, l3, l4, l5, l6, l7, l8])"
  by (rule that, rule grid_ok_expand[OF assms])

lemma applyMove_grid_ok:
  assumes "grid_ok g" "face m \<in> set FACES"
  shows "\<exists>g'. applyMove_grid m g = Some g' \<and> grid_ok g'"
proof -
  from assms(1) obtain u0 u1 u2 u3 u4 u5 u6 u7 u8 d0 d1 d2 d3 d4 d5 d6 d7 d8 f0 f1 f2 f3 f4 f5 f6 f7 f8 b0 b1 b2 b3 b4 b5 b6 b7 b8 r0 r1 r2 r3 r4 r5 r6 r7 r8 l0 l1 l2 l3 l4 l5 l6 l7 l8
    where e: "g = (mk_grid [u0, u1, u2, u3, u4, u5, u6, u7, u8] [d0, d1, d2, d3, d4, d5, d6, d7, d8] [f0, f1, f2, f3, f4, f5, f6, f7, f8] [b0, b1, b2, b3, b4, b5, b6, b7, b8] [r0, r1, r2, r3, r4, r5, r6, r7, r8] [l0, l1, l2, l3, l4, l5, l6, l7, l8])"
    by (rule grid_ok_cases)
  have "case applyMove_grid m g of None \<Rightarrow> False | Some g' \<Rightarrow> grid_ok g'"
    unfolding e by (rule keep_explicit[OF assms(2)])
  then show ?thesis by (cases "applyMove_grid m g") auto
qed

lemma undo_grid:
  assumes "grid_ok g" "face m \<in> set FACES"
  shows "do { g' \<leftarrow> applyMove_grid m g; m' \<leftarrow> inverse_move m; applyMove_grid m' g' } = Some g"
proof -
  from assms(1) obtain u0 u1 u2 u3 u4 u5 u6 u7 u8 d0 d1 d2 d3 d4 d5 d6 d7 d8 f0 f1 f2 f3 f4 f5 f6 f7 f8 b0 b1 b2 b3 b4 b5 b6 b7 b8 r0 r1 r2 r3 r4 r5 r6 r7 r8 l0 l1 l2 l3 l4 l5 l6 l7 l8
    where e: "g = (mk_grid [u0, u1, u2, u3, u4, u5, u6, u7, u8] [d0, d1, d2, d3, d4, d5, d6, d7, d8] [f0, f1, f2, f3, f4, f5, f6, f7, f8] [b0, b1, b2, b3, b4, b5, b6, b7, b8] [r0, r1, r2, r3, r4, r5, r6, r7, r8] [l0, l1, l2, l3, l4, l5, l6, l7, l8])"
    by (rule grid_ok_cases)
  show ?thesis unfolding e by (rule undo_explicit[OF assms(2)])
qed

lemma half_grid:
  assumes "grid_ok g" "face h \<in> set FACES" "double h" "face q = face h" "\<not> double q" "\<not> prime q" "wide q = wide h"
  shows "applyMove_grid h g = do { g' \<leftarrow> applyMove_grid q g; applyMove_grid q g' }"
    and "applyMove_grid h g \<noteq> None"
proof -
  from assms(1) obtain u0 u1 u2 u3 u4 u5 u6 u7 u8 d0 d1 d2 d3 d4 d5 d6 d7 d8 f0 f1 f2 f3 f4 f5 f6 f7 f8 b0 b1 b2 b3 b4 b5 b6 b7 b8 r0 r1 r2 r3 r4 r5 r6 r7 r8 l0 l1 l2 l3 l4 l5 l6 l7 l8
    where e: "g = (mk_grid [u0, u1, u2, u3, u4, u5, u6, u7, u8] [d0, d1, d2, d3, d4, d5, d6, d7, d8] [f0, f1, f2, f3, f4, f5, f6, f7, f8] [b0, b1, b2, b3, b4, b5, b6, b7, b8] [r0, r1, r2, r3, r4, r5, r6, r7, r8] [l0, l1, l2, l3, l4, l5, l6, l7, l8])"
    by (rule grid_ok_cases)
  show "applyMove_grid h g = do { g' \<leftarrow> applyMove_grid q g; applyMove_grid q g' }"
    unfolding e by (rule half_explicit(1)[OF assms(2-)])
  show "applyMove_grid h g \<noteq> None"
    unfolding e by (rule half_explicit(2)[OF assms(2-)])
qed

section \<open>Moves built by the constructor\<close>

lemma Move_known_face:
  assumes "f \<in> set FACES"
  shows "\<exists>m. Move f p d w = Some m \<and> face m = f \<and> prime m = p \<and> double m = d \<and> wide m = w
             \<and> valid_move m"
proof -
  from assms have u: "toUpperCase f = f"
    by (auto simp: FACES_def toUpperCase_def upper_char_def is_lower_def)
  from assms obtain ax ly dir where a: "AXIS_MAP f = Some (ax, ly, dir)"
    by (auto simp: FACES_def AXIS_MAP_def)
  let ?m = "\<lparr> face = f, prime = p, double = d, wide = w, axis = ax, layer = ly,
              direction = (if p then - dir else dir), angle = (if d then Pi else HalfPi) \<rparr>"
  have "Move f p d w = Some ?m" by (simp add: Move_def u a)
  moreover have "valid_move ?m" by (simp add: valid_move_def Move_def u a)
  ultimately show ?thesis by (intro exI[of _ ?m]) simp
qed

lemma valid_move_face:
  assumes "valid_move m"
  shows "face m \<in> set FACES"
proof -
  from assms have e: "Move (face m) (prime m) (double m) (wide m) = Some m"
    by (simp add: valid_move_def)
  then obtain t where t: "AXIS_MAP (toUpperCase (face m)) = Some t"
    by (auto simp: Move_def Let_def split: option.splits)
  then have k: "toUpperCase (face m) \<in> set FACES"
    by (auto simp: AXIS_MAP_def FACES_def split: if_splits)
  from e t have "face m = toUpperCase (face m)"
    by (cases t) (auto simp: Move_def Let_def dest: arg_cong[where f = face])
  with k show ?thesis by simp
qed

lemma inverse_valid:
  assumes "valid_move m"
  shows "\<exists>m'. inverse_move m = Some m' \<and> valid_move m' \<and> face m' = face m"
  using Move_known_face[OF valid_move_face[OF assms]]
  by (simp add: inverse_move_def) metis

section \<open>The parser always returns, and returns constructor-built moves\<close>

lemma parse_token_valid:
  "\<exists>ms. parse_token t = Some ms \<and> list_all (\<lambda>m. valid_move m \<and> \<not> (prime m \<and> double m)) ms"
proof (induction t rule: parse_token.induct)
  case 1
  then show ?case by simp
next
  case (2 raw)
  show ?case
  proof (cases "toUpperCase [raw] \<in> set FACES")
    case True
    from Move_known_face[OF True, of False False "is_lower raw"] show ?thesis
      using True by (auto simp: Let_def)
  next
    case False
    then show ?thesis by (simp add: Let_def)
  qed
next
  case (3 raw nxt rest)
  show ?case
  proof (cases "toUpperCase [raw] \<in> set FACES")
    case False
    with 3(1)[OF refl False] show ?thesis by (simp add: Let_def)
  next
    case True
    then have nn: "\<not> toUpperCase [raw] \<notin> set FACES" by simp
    show ?thesis
    proof (cases "nxt = CHR 0x27")
      case p: True
      from Move_known_face[OF True, of True False "is_lower raw"]
      obtain m where m: "Move (toUpperCase [raw]) True False (is_lower raw) = Some m"
        "valid_move m" "prime m" "\<not> double m" by auto
      from 3(2)[OF refl nn p m(1)] m show ?thesis
        using True p by (auto simp: Let_def)
    next
      case np: False
      show ?thesis
      proof (cases "nxt = CHR ''2''")
        case d: True
        from Move_known_face[OF True, of False True "is_lower raw"]
        obtain m where m: "Move (toUpperCase [raw]) False True (is_lower raw) = Some m"
          "valid_move m" "\<not> prime m" by auto
        from 3(3)[OF refl nn np d m(1)] m show ?thesis
          using True np d by (auto simp: Let_def)
      next
        case nd: False
        from Move_known_face[OF True, of False False "is_lower raw"]
        obtain m where m: "Move (toUpperCase [raw]) False False (is_lower raw) = Some m"
          "valid_move m" "\<not> prime m" by auto
        from 3(4)[OF refl nn np nd m(1)] m show ?thesis
          using True np nd by (auto simp: Let_def)
      qed
    qed
  qed
qed

lemma parse_tokens_valid:
  "\<exists>ms. parse_tokens ts = Some ms \<and> list_all (\<lambda>m. valid_move m \<and> \<not> (prime m \<and> double m)) ms"
proof (induction ts)
  case Nil
  then show ?case by simp
next
  case (Cons t ts)
  from parse_token_valid[of t] Cons show ?case by auto
qed

lemma parse_valid:
  "\<exists>ms. parse algorithm = Some ms \<and> list_all (\<lambda>m. valid_move m \<and> \<not> (prime m \<and> double m)) ms"
  using parse_tokens_valid[of "split_ws (trim algorithm)"] by (auto simp: parse_def)

section \<open>Printing and reading back\<close>

lemma face_letter:
  assumes "f \<in> set FACES"
  shows "\<exists>c. f = [c] \<and> toUpperCase [c] = [c] \<and> toUpperCase [lower_char c] = [c]
             \<and> \<not> is_lower c \<and> is_lower (lower_char c)
             \<and> \<not> is_space c \<and> \<not> is_space (lower_char c)"
proof -
  from assms consider "f = ''R''" | "f = ''L''" | "f = ''U''" | "f = ''D''" | "f = ''F''" | "f = ''B''"
    by (auto simp: FACES_def)
  then show ?thesis
    by cases
      (simp_all add: toUpperCase_def upper_char_def lower_char_def is_lower_def is_upper_def
        is_space_def char_of_eq_iff)
qed

lemma toString_token:
  assumes "valid_move m" "\<not> (prime m \<and> double m)"
  shows "parse_token (toString m) = Some [m]"
    and "toString m \<noteq> []"
    and "\<forall>c \<in> set (toString m). \<not> is_space c"
proof -
  have f: "face m \<in> set FACES" by (rule valid_move_face[OF assms(1)])
  from assms(1) have e: "Move (face m) (prime m) (double m) (wide m) = Some m"
    by (simp add: valid_move_def)
  from face_letter[OF f] obtain c where c: "face m = [c]" "toUpperCase [c] = [c]"
    "toUpperCase [lower_char c] = [c]" "\<not> is_lower c" "is_lower (lower_char c)"
    "\<not> is_space c" "\<not> is_space (lower_char c)"
    by blast
  define l where "l = (if wide m then lower_char c else c)"
  have ts: "toString m = l # (if double m then ''2'' else []) @ (if prime m then [CHR 0x27] else [])"
    by (simp add: toString_def l_def c(1) toLowerCase_def)
  have up: "toUpperCase [l] = face m" using c by (simp add: l_def)
  have lw: "is_lower l = wide m" using c by (simp add: l_def)
  have nsp: "\<not> is_space l" using c by (simp add: l_def)
  have mods: "\<not> is_space CHR ''2''" "\<not> is_space (CHR 0x27)" by (simp_all add: is_space_def)
  show "toString m \<noteq> []" by (simp add: ts)
  show "\<forall>c \<in> set (toString m). \<not> is_space c" using nsp mods by (auto simp: ts)
  show "parse_token (toString m) = Some [m]"
  proof (cases "double m")
    case True
    with assms(2) have "\<not> prime m" by simp
    with True e f show ?thesis by (simp add: ts up lw Let_def)
  next
    case False
    then show ?thesis
    proof (cases "prime m")
      case True
      with False e f show ?thesis by (simp add: ts up lw Let_def)
    next
      case np: False
      with False e f show ?thesis by (simp add: ts up lw Let_def)
    qed
  qed
qed

lemma split_scan_token:
  assumes "\<forall>c \<in> set t. \<not> is_space c"
  shows "split_scan False cur (t @ rest) = split_scan False (rev t @ cur) rest"
  using assms by (induction t arbitrary: cur) auto

lemma split_scan_token_any:
  assumes "\<forall>c \<in> set t. \<not> is_space c" "t \<noteq> []"
  shows "split_scan b cur (t @ rest) = split_scan False (rev t @ cur) rest"
proof -
  from assms(2) obtain c t' where t: "t = c # t'" by (cases t) auto
  with assms(1) have "split_scan b cur (t @ rest) = split_scan False (c # cur) (t' @ rest)"
    by simp
  also have "\<dots> = split_scan False (rev t' @ c # cur) rest"
    using assms(1) t by (simp add: split_scan_token)
  finally show ?thesis using t by simp
qed

lemma split_scan_join:
  assumes "ts \<noteq> []" "\<forall>t \<in> set ts. t \<noteq> [] \<and> (\<forall>c \<in> set t. \<not> is_space c)"
  shows "split_scan b [] (join_space ts) = ts"
  using assms
proof (induction ts arbitrary: b rule: join_space.induct)
  case 1
  then show ?case by simp
next
  case (2 x)
  then have "split_scan b [] (x @ []) = split_scan False (rev x @ []) []"
    by (intro split_scan_token_any) auto
  then show ?case by simp
next
  case (3 x y ys)
  have sp: "is_space CHR '' ''" by (simp add: is_space_def)
  from 3(3) have "split_scan b [] (x @ CHR '' '' # join_space (y # ys))
      = split_scan False (rev x @ []) (CHR '' '' # join_space (y # ys))"
    by (intro split_scan_token_any) auto
  also have "\<dots> = x # split_scan True [] (join_space (y # ys))"
    using sp by simp
  also have "split_scan True [] (join_space (y # ys)) = y # ys"
    using 3(3) by (intro 3(1)) auto
  finally show ?case by simp
qed

lemma join_space_ends:
  assumes "ts \<noteq> []" "\<forall>t \<in> set ts. t \<noteq> []"
  shows "join_space ts \<noteq> [] \<and> hd (join_space ts) = hd (hd ts)
         \<and> last (join_space ts) = last (last ts)"
  using assms by (induction ts rule: join_space.induct) auto

lemma trim_id:
  assumes "s \<noteq> []" "\<not> is_space (hd s)" "\<not> is_space (last s)"
  shows "trim s = s"
proof -
  from assms have a: "dropWhile is_space s = s" by (cases s) auto
  from assms have "rev s \<noteq> []" "\<not> is_space (hd (rev s))" by (auto simp: hd_rev)
  then have "dropWhile is_space (rev s) = rev s" by (cases "rev s") auto
  with a show ?thesis by (simp add: trim_def)
qed

lemma parse_tokens_toString:
  assumes "list_all (\<lambda>m. valid_move m \<and> \<not> (prime m \<and> double m)) ms"
  shows "parse_tokens (map toString ms) = Some ms"
  using assms by (induction ms) (auto simp: toString_token(1))

lemma parse_toString_moves:
  assumes "list_all (\<lambda>m. valid_move m \<and> \<not> (prime m \<and> double m)) ms"
  shows "parse (toString_moves ms) = Some ms"
proof (cases "ms = []")
  case True
  then show ?thesis by (simp add: parse_def toString_moves_def)
next
  case False
  let ?ts = "map toString ms"
  have ne: "?ts \<noteq> []" using False by simp
  have tok: "\<forall>t \<in> set ?ts. t \<noteq> [] \<and> (\<forall>c \<in> set t. \<not> is_space c)"
    using assms toString_token(2,3) by (auto simp: list_all_iff)
  then have tok': "\<forall>t \<in> set ?ts. t \<noteq> []" by blast
  note ends = join_space_ends[OF ne tok']
  have h: "hd ?ts \<in> set ?ts" "last ?ts \<in> set ?ts"
    using hd_in_set[OF ne] last_in_set[OF ne] by blast+
  have "\<not> is_space (hd (hd ?ts))" using tok h(1) hd_in_set by blast
  moreover have "\<not> is_space (last (last ?ts))" using tok h(2) last_in_set by blast
  ultimately have tr: "trim (join_space ?ts) = join_space ?ts"
    using ends by (intro trim_id) auto
  have sp: "split_ws (join_space ?ts) = ?ts"
    unfolding split_ws_def by (rule split_scan_join[OF ne tok])
  show ?thesis
    using ends tr sp parse_tokens_toString[OF assms]
    by (simp add: parse_def toString_moves_def)
qed

text \<open>
  C6. Parsing a text, printing the result with \<open>MoveParser.toString\<close> and parsing again
  gives the same descriptors, field by field. This holds for every text, so in particular
  for the texts made of face letters, the two modifiers and white space.
\<close>

theorem parse_toString_parse:
  "\<exists>ms. parse algorithm = Some ms \<and> parse (toString_moves ms) = Some ms"
  using parse_valid[of algorithm] parse_toString_moves by blast

lemma solved_faces_mk_grid:
  "solved_faces = mk_grid (replicate 9 (Color ''white'')) (replicate 9 (Color ''yellow''))
     (replicate 9 (Color ''green'')) (replicate 9 (Color ''blue''))
     (replicate 9 (Color ''red'')) (replicate 9 (Color ''orange''))"
  by (rule ext) (simp add: solved_faces_def FACE_NAMES_def color_of_def COLORS_def mk_grid_def)

lemma grid_ok_solved: "grid_ok solved_faces"
  by (simp add: solved_faces_mk_grid grid_ok_mk_grid)

text \<open>
  C2. On a grid of six faces with nine stickers each, a move whose face is one of the six
  letters, followed by its inverse, puts every sticker of every face back.
\<close>

theorem move_then_inverse_restores:
  assumes "grid_ok (faces c)" and "face m \<in> set FACES"
  shows "\<exists>m' c' c''. inverse_move m = Some m' \<and> applyMove m r c = Some c'
           \<and> applyMove m' r' c' = Some c'' \<and> faces c'' = faces c"
proof -
  from undo_grid[OF assms] obtain g' m' where
    s: "applyMove_grid m (faces c) = Some g'" "inverse_move m = Some m'"
       "applyMove_grid m' g' = Some (faces c)"
    by (auto split: Option.bind_splits)
  then show ?thesis by (simp add: applyMove_def Let_def)
qed

theorem move_then_inverse_restores_witness:
  "grid_ok (faces \<lparr> faces = solved_faces, history = [] \<rparr>)
   \<and> face \<lparr> face = ''R'', prime = True, double = False, wide = True, axis = ''x'', layer = 1,
             direction = 1, angle = HalfPi \<rparr> \<in> set FACES
   \<and> (\<exists>m' c' c''.
         inverse_move \<lparr> face = ''R'', prime = True, double = False, wide = True, axis = ''x'',
             layer = 1, direction = 1, angle = HalfPi \<rparr> = Some m'
         \<and> applyMove \<lparr> face = ''R'', prime = True, double = False, wide = True, axis = ''x'',
             layer = 1, direction = 1, angle = HalfPi \<rparr> True \<lparr> faces = solved_faces, history = [] \<rparr>
             = Some c'
         \<and> applyMove m' False c' = Some c''
         \<and> faces c'' = faces \<lparr> faces = solved_faces, history = [] \<rparr>)"
  using move_then_inverse_restores[of "\<lparr> faces = solved_faces, history = [] \<rparr>"
      "\<lparr> face = ''R'', prime = True, double = False, wide = True, axis = ''x'', layer = 1,
         direction = 1, angle = HalfPi \<rparr>" True False]
  by (simp add: grid_ok_solved FACES_def)

text \<open>
  C3. For each of the six faces and either value of \<open>wide\<close>, on a grid of six faces with
  nine stickers each, the half turn gives the grid that two plain clockwise turns give.
\<close>

theorem half_turn_is_two_quarter_turns:
  assumes "grid_ok (faces c)" and "f \<in> set FACES"
  shows "\<exists>h q c1 c2 c3. Move f False True w = Some h \<and> Move f False False w = Some q
           \<and> applyMove h r c = Some c1
           \<and> applyMove q r c = Some c2 \<and> applyMove q r c2 = Some c3
           \<and> faces c1 = faces c3"
proof -
  from Move_known_face[OF assms(2), of False True w] obtain h where
    h: "Move f False True w = Some h" "face h = f" "double h" "wide h = w" by auto
  from Move_known_face[OF assms(2), of False False w] obtain q where
    q: "Move f False False w = Some q" "face q = f" "\<not> prime q" "\<not> double q" "wide q = w" by auto
  have fh: "face h \<in> set FACES" using h assms(2) by simp
  have e: "applyMove_grid h (faces c)
        = do { g' \<leftarrow> applyMove_grid q (faces c); applyMove_grid q g' }"
    by (rule half_grid(1)[OF assms(1) fh]) (use h q in simp_all)
  have n: "applyMove_grid h (faces c) \<noteq> None"
    by (rule half_grid(2)[OF assms(1) fh, of q]) (use h q in simp_all)
  from n obtain g1 where g1: "applyMove_grid h (faces c) = Some g1" by auto
  with e obtain g2 where g2: "applyMove_grid q (faces c) = Some g2" "applyMove_grid q g2 = Some g1"
    by (auto split: Option.bind_splits)
  show ?thesis using h(1) q(1) g1 g2 by (simp add: applyMove_def Let_def)
qed

theorem half_turn_is_two_quarter_turns_witness:
  "grid_ok (faces \<lparr> faces = solved_faces, history = [] \<rparr>) \<and> ''F'' \<in> set FACES
   \<and> (\<exists>h q c1 c2 c3. Move ''F'' False True True = Some h \<and> Move ''F'' False False True = Some q
         \<and> applyMove h False \<lparr> faces = solved_faces, history = [] \<rparr> = Some c1
         \<and> applyMove q False \<lparr> faces = solved_faces, history = [] \<rparr> = Some c2
         \<and> applyMove q False c2 = Some c3
         \<and> faces c1 = faces c3)"
  using half_turn_is_two_quarter_turns[of "\<lparr> faces = solved_faces, history = [] \<rparr>" "''F''"
      True False]
  by (simp add: grid_ok_solved FACES_def)

text \<open>
  C8. For every input the parser returns, and every descriptor it returns has one of the six
  face letters; the tables \<open>EDGE_CYCLES\<close> and \<open>MIDDLE_CYCLES\<close> have an entry for it, and
  \<open>applyMove\<close> on a grid of six faces with nine stickers each does not throw.
\<close>

theorem parser_emits_known_faces:
  "\<exists>ms. parse algorithm = Some ms
     \<and> (\<forall>m \<in> set ms. face m \<in> set FACES
           \<and> EDGE_CYCLES (face m) \<noteq> None \<and> MIDDLE_CYCLES (face m) \<noteq> None
           \<and> (\<forall>c r. grid_ok (faces c) \<longrightarrow> applyMove m r c \<noteq> None))"
proof -
  from parse_valid[of algorithm] obtain ms where
    ms: "parse algorithm = Some ms" "list_all valid_move ms"
    by (auto simp: list_all_iff)
  have "face m \<in> set FACES \<and> EDGE_CYCLES (face m) \<noteq> None \<and> MIDDLE_CYCLES (face m) \<noteq> None
          \<and> (\<forall>c r. grid_ok (faces c) \<longrightarrow> applyMove m r c \<noteq> None)" if "m \<in> set ms" for m
  proof -
    from that ms(2) have f: "face m \<in> set FACES"
      by (auto simp: list_all_iff intro: valid_move_face)
    then have "EDGE_CYCLES (face m) \<noteq> None" "MIDDLE_CYCLES (face m) \<noteq> None"
      by (auto simp: FACES_def EDGE_CYCLES_def MIDDLE_CYCLES_def)
    moreover have "applyMove m r c \<noteq> None" if "grid_ok (faces c)" for c r
      using applyMove_grid_ok[OF that f] by (auto simp: applyMove_def Let_def)
    ultimately show ?thesis using f by blast
  qed
  with ms(1) show ?thesis by blast
qed

theorem parser_emits_known_faces_witness:
  "parse ''r2 x U'' = Some
      [\<lparr> face = ''R'', prime = False, double = True, wide = True, axis = ''x'', layer = 1,
          direction = - 1, angle = Pi \<rparr>,
       \<lparr> face = ''U'', prime = False, double = False, wide = False, axis = ''y'', layer = 1,
          direction = - 1, angle = HalfPi \<rparr>]
   \<and> grid_ok (faces \<lparr> faces = solved_faces, history = [] \<rparr>)
   \<and> applyMove \<lparr> face = ''R'', prime = False, double = True, wide = True, axis = ''x'', layer = 1,
          direction = - 1, angle = Pi \<rparr> False \<lparr> faces = solved_faces, history = [] \<rparr> \<noteq> None"
proof -
  have p: "parse ''r2 x U'' = Some
      [\<lparr> face = ''R'', prime = False, double = True, wide = True, axis = ''x'', layer = 1,
          direction = - 1, angle = Pi \<rparr>,
       \<lparr> face = ''U'', prime = False, double = False, wide = False, axis = ''y'', layer = 1,
          direction = - 1, angle = HalfPi \<rparr>]"
    by (simp add: parse_def trim_def split_ws_def is_space_def FACES_def Move_def AXIS_MAP_def
        toUpperCase_def upper_char_def is_lower_def char_of_eq_iff Let_def)
  show ?thesis
    using parser_emits_known_faces[of "''r2 x U''"] grid_ok_solved
    by (simp add: p)
qed

section \<open>Progress tracker: reads\<close>

lemma getAll_absent_or_invalid:
  assumes "item = None \<or> (\<exists>t. item = Some t \<and> jp t = None)"
  shows "getAll jp item = JObject []"
  using assms by (auto simp: getAll_def)

lemma countCompleted_le: "countCompleted jp bp item ids \<le> length ids"
  by (simp add: countCompleted_def Let_def)

lemma no_progress_plain_ids:
  assumes "item = None \<or> (\<exists>t. item = Some t \<and> jp t = None)"
    and "set ids \<inter> set Object_prototype_names = {}" and "ident \<notin> set Object_prototype_names"
  shows "\<not> isCompleted jp bp item ident" "countCompleted jp bp item ids = 0"
    "getProgress jp bp item ids = 0"
proof -
  have g: "getAll jp item = JObject []" by (rule getAll_absent_or_invalid[OF assms(1)])
  have nop: "\<not> truthy (get_prop bp (JObject []) k)" if "k \<notin> set Object_prototype_names" for k
    using that by (auto simp: get_prop_def Object_prototype_names_def)
  show "\<not> isCompleted jp bp item ident" using nop[OF assms(3)] by (simp add: isCompleted_def g)
  have "filter (\<lambda>k. truthy (get_prop bp (JObject []) k)) ids = []"
    using assms(2) nop by (auto simp: filter_empty_conv)
  then show c: "countCompleted jp bp item ids = 0" by (simp add: countCompleted_def g)
  show "getProgress jp bp item ids = 0" by (simp add: getProgress_def c)
qed

text \<open>
  C9. With no stored blob, the identifier \<open>constructor\<close> is reported as completed: the empty
  object that stands for "no progress" inherits a property of that name, and the reads do not
  tell inherited properties from stored ones. The three reads return \<open>true\<close>, 1 and 1 where
  the claim says \<open>false\<close>, 0 and 0.
\<close>

theorem progress_inherited_property_read:
  "isCompleted jp bp None ''constructor''
   \<and> countCompleted jp bp None [''constructor''] = 1
   \<and> getProgress jp bp None [''constructor''] = 1"
  by (simp add: isCompleted_def countCompleted_def getProgress_def getAll_def get_prop_def
      Object_prototype_names_def)

text \<open>
  C10. \<open>getProgress\<close> returns 0 for the empty list, without dividing; for a non-empty list
  it returns the number of completed identifiers divided by the length of the list, a value
  between 0 and 1.
\<close>

theorem getProgress_fraction:
  "getProgress jp bp item [] = 0
   \<and> (ids \<noteq> [] \<longrightarrow>
        getProgress jp bp item ids = real (countCompleted jp bp item ids) / real (length ids)
        \<and> 0 \<le> getProgress jp bp item ids \<and> getProgress jp bp item ids \<le> 1)"
proof -
  have "real (countCompleted jp bp item ids) \<le> real (length ids)"
    using countCompleted_le[of jp bp item ids] by simp
  then show ?thesis
    by (auto simp: getProgress_def divide_le_eq_1)
qed

theorem getProgress_fraction_witness:
  "[''oll-1'', ''oll-2''] \<noteq> []
   \<and> getProgress (\<lambda>t. Some (JObject [(''oll-1'', JBool True)])) (\<lambda>v k. JUndefined)
        (Some ''blob'') [''oll-1'', ''oll-2''] = 1 / 2
   \<and> getProgress (\<lambda>t. None) (\<lambda>v k. JUndefined) None [] = 0"
  using getProgress_fraction[of "\<lambda>t. Some (JObject [(''oll-1'', JBool True)])" "\<lambda>v k. JUndefined"
      "Some ''blob''" "[''oll-1'', ''oll-2'']"]
    getProgress_fraction[of "\<lambda>t. None" "\<lambda>v k. JUndefined" None "[]"]
  by (simp add: countCompleted_def getAll_def get_prop_def Object_prototype_names_def)

section \<open>Sequences of moves\<close>

lemma applyMove_ok:
  assumes "grid_ok (faces c)" "valid_move m"
  shows "\<exists>c'. applyMove m False c = Some c' \<and> grid_ok (faces c') \<and> history c' = history c
            \<and> applyMove_grid m (faces c) = Some (faces c')"
  using applyMove_grid_ok[OF assms(1) valid_move_face[OF assms(2)]]
  by (auto simp: applyMove_def)

lemma applyMoves_ok:
  assumes "grid_ok (faces c)" "list_all valid_move ms"
  shows "\<exists>c'. applyMoves ms False c = Some c' \<and> grid_ok (faces c') \<and> history c' = history c"
  using assms
proof (induction ms arbitrary: c)
  case Nil
  then show ?case by simp
next
  case (Cons m ms)
  from Cons.prems have vm: "valid_move m" and vms: "list_all valid_move ms" by simp_all
  from applyMove_ok[OF Cons.prems(1) vm] obtain c1 where
    c1: "applyMove m False c = Some c1" "grid_ok (faces c1)" "history c1 = history c" by blast
  from Cons.IH[OF c1(2) vms] c1 show ?case by auto
qed

lemma applyMoves_append:
  "applyMoves (xs @ ys) r c = do { c' \<leftarrow> applyMoves xs r c; applyMoves ys r c' }"
  by (induction xs arbitrary: c) (auto split: Option.bind_splits)

lemma grid_at_ok:
  assumes "list_all valid_move (setupMoves s)" "list_all valid_move (moves s)"
  shows "\<exists>g. grid_at s n = Some g \<and> grid_ok g"
proof -
  have "list_all valid_move (setupMoves s @ take n (moves s))"
    using assms by (auto simp: list_all_iff dest: in_set_takeD)
  from applyMoves_ok[OF _ this, of "\<lparr> faces = solved_faces, history = [] \<rparr>"] grid_ok_solved
  show ?thesis by (auto simp: grid_at_def)
qed

lemma grid_at_Suc:
  assumes "n < length (moves s)"
  shows "grid_at s (Suc n) = do { g \<leftarrow> grid_at s n; applyMove_grid (moves s ! n) g }"
proof -
  have t: "setupMoves s @ take (Suc n) (moves s) = (setupMoves s @ take n (moves s)) @ [moves s ! n]"
    using assms by (simp add: take_Suc_conv_app_nth)
  show ?thesis
    unfolding grid_at_def t applyMoves_append
    by (auto simp: applyMove_def Let_def split: Option.bind_splits)
qed

lemma grid_at_cong:
  assumes "setupMoves s' = setupMoves s" "moves s' = moves s"
  shows "grid_at s' n = grid_at s n"
  using assms by (simp add: grid_at_def)

section \<open>The invariant of calm sessions\<close>

lemma ctrl_inv_cong:
  assumes "model s' = model s" "animator s' = animator s" "moves s' = moves s"
    "setupMoves s' = setupMoves s" "currentStep s' = currentStep s"
  shows "ctrl_inv s' = ctrl_inv s"
  using assms by (simp add: ctrl_inv_def ahead_def grid_at_def)

lemma notify_frame [simp]:
  "model (notifyStep s) = model s" "animator (notifyStep s) = animator s"
  "moves (notifyStep s) = moves s" "setupMoves (notifyStep s) = setupMoves s"
  "currentStep (notifyStep s) = currentStep s" "isPlaying (notifyStep s) = isPlaying s"
  "playAbort (notifyStep s) = playAbort s" "onStepChange (notifyStep s) = onStepChange s"
  "onPlayStateChange (notifyStep s) = onPlayStateChange s"
  "model (notifyPlayState s) = model s" "animator (notifyPlayState s) = animator s"
  "moves (notifyPlayState s) = moves s" "setupMoves (notifyPlayState s) = setupMoves s"
  "currentStep (notifyPlayState s) = currentStep s" "isPlaying (notifyPlayState s) = isPlaying s"
  "playAbort (notifyPlayState s) = playAbort s" "onStepChange (notifyPlayState s) = onStepChange s"
  "onPlayStateChange (notifyPlayState s) = onPlayStateChange s"
  by (simp_all add: notifyStep_def notifyPlayState_def)

lemma pause_frame [simp]:
  "model (pause s) = model s" "animator (pause s) = animator s"
  "moves (pause s) = moves s" "setupMoves (pause s) = setupMoves s"
  "currentStep (pause s) = currentStep s" "isPlaying (pause s) = False"
  "playAbort (pause s) = True" "onStepChange (pause s) = onStepChange s"
  "onPlayStateChange (pause s) = onPlayStateChange s"
  by (simp_all add: pause_def)

lemma ctrl_inv_pause: "ctrl_inv (pause s) = ctrl_inv s"
  by (rule ctrl_inv_cong) simp_all

lemma ctrl_inv_idle:
  assumes "ctrl_inv s" "\<not> isAnimating (animator s)"
  shows "running (animator s) = None"
  using assms by (cases "running (animator s)") (auto simp: ctrl_inv_def)

text \<open>A forward step from a state without a running animation.\<close>

lemma executeStep_inv:
  assumes inv: "ctrl_inv s" and idle: "running (animator s) = None"
    and lt: "currentStep s < length (moves s)" and k: "k = AwaitPlay \<or> k = AwaitStepForward"
  shows "\<exists>s'. executeStep (moves s ! currentStep s) k s = Some s' \<and> ctrl_inv s'"
proof -
  let ?mv = "moves s ! currentStep s"
  from inv have vm: "list_all valid_move (moves s)" and vs: "list_all valid_move (setupMoves s)"
    and q: "queue (animator s) = []" and na: "\<not> isAnimating (animator s)"
    and g: "grid_at s (currentStep s) = Some (faces (model s))"
    using idle by (simp_all add: ctrl_inv_def ahead_def)
  from vm lt have v: "valid_move ?mv" by (simp add: list_all_length)
  from grid_at_ok[OF vs vm, of "currentStep s"] g have ok: "grid_ok (faces (model s))" by simp
  from applyMove_ok[OF ok v] obtain c' where
    c': "applyMove ?mv False (model s) = Some c'" "applyMove_grid ?mv (faces (model s)) = Some (faces c')"
    by blast
  let ?s' = "s\<lparr> model := c', animator := animateMove ?mv k (animator s) \<rparr>"
  have e: "executeStep ?mv k s = Some ?s'" by (simp add: executeStep_def c'(1))
  have a: "animateMove ?mv k (animator s) = (animator s)\<lparr> isAnimating := True, running := Some (?mv, k) \<rparr>"
    using na by (simp add: animateMove_def startAnimation_def)
  have "grid_at s (Suc (currentStep s)) = Some (faces c')"
    using grid_at_Suc[OF lt] g c'(2) by simp
  moreover have "grid_at ?s' (Suc (currentStep s)) = grid_at s (Suc (currentStep s))"
    by (rule grid_at_cong) simp_all
  ultimately have ga: "grid_at ?s' (Suc (currentStep s)) = Some (faces c')" by simp
  have "ctrl_inv ?s'"
    using vm vs q lt k ga by (auto simp: ctrl_inv_def ahead_def a)
  with e show ?thesis by blast
qed

lemma play_loop_inv:
  assumes "ctrl_inv s" "running (animator s) = None"
  shows "\<exists>s'. play_loop s = Some s' \<and> ctrl_inv s'"
proof (cases "currentStep s < length (moves s) \<and> \<not> playAbort s")
  case True
  with executeStep_inv[OF assms, of AwaitPlay] show ?thesis
    by (auto simp: play_loop_def move_at_def)
next
  case False
  have "ctrl_inv (notifyPlayState (s\<lparr> isPlaying := False \<rparr>)) = ctrl_inv s"
    by (rule ctrl_inv_cong) simp_all
  with False assms(1) show ?thesis by (auto simp: play_loop_def)
qed

lemma apply_setup_inv:
  assumes "list_all valid_move (moves s)" "list_all valid_move (setupMoves s)"
    "queue (animator s) = []" "\<not> isAnimating (animator s)" "running (animator s) = None"
    "currentStep s = 0"
  shows "\<exists>s'. apply_setup s = Some s' \<and> ctrl_inv s' \<and> running (animator s') = None
            \<and> isPlaying s' = isPlaying s \<and> playAbort s' = playAbort s"
proof -
  let ?c = "\<lparr> faces = solved_faces, history = [] \<rparr>"
  from applyMoves_ok[OF _ assms(2), of ?c] grid_ok_solved obtain c' where
    c': "applyMoves (setupMoves s) False ?c = Some c'" by auto
  have "(if length (setupMoves s) > 0 then applyMoves (setupMoves s) False ?c else Some ?c) = Some c'"
    using c' by (cases "setupMoves s") auto
  then have e: "apply_setup s = Some (s\<lparr> model := c' \<rparr>)"
    by (simp add: apply_setup_def reset_model_def)
  have "ctrl_inv (s\<lparr> model := c' \<rparr>)"
    using assms c' by (simp add: ctrl_inv_def ahead_def grid_at_def)
  with e assms(5) show ?thesis by simp
qed

lemma reset_inv:
  assumes "ctrl_inv s" "\<not> isAnimating (animator s)"
  shows "\<exists>s'. reset s = Some s' \<and> ctrl_inv s' \<and> running (animator s') = None"
proof -
  note r = ctrl_inv_idle[OF assms]
  let ?s2 = "(pause s)\<lparr> animator := clearQueue (animator (pause s)), currentStep := 0 \<rparr>"
  have "\<exists>s'. apply_setup ?s2 = Some s' \<and> ctrl_inv s' \<and> running (animator s') = None
            \<and> isPlaying s' = isPlaying ?s2 \<and> playAbort s' = playAbort ?s2"
    using assms r by (intro apply_setup_inv) (simp_all add: ctrl_inv_def clearQueue_def)
  then obtain s3 where s3: "apply_setup ?s2 = Some s3" "ctrl_inv s3" "running (animator s3) = None"
    by blast
  have "ctrl_inv (notifyStep s3) = ctrl_inv s3" by (rule ctrl_inv_cong) simp_all
  with s3 show ?thesis by (simp add: reset_def Let_def)
qed

lemma loadAlgorithm_inv:
  assumes "ctrl_inv s" "\<not> isAnimating (animator s)"
  shows "\<exists>s'. loadAlgorithm a t s = Some s' \<and> ctrl_inv s'"
proof -
  note r = ctrl_inv_idle[OF assms]
  from parse_valid[of a] obtain ms where ms: "parse a = Some ms" "list_all valid_move ms"
    by (auto simp: list_all_iff)
  have "\<exists>sm. (if t \<noteq> [] then parse t else Some []) = Some sm \<and> list_all valid_move sm"
    using parse_valid[of t] by (auto simp: list_all_iff)
  then obtain sm where sm: "(if t \<noteq> [] then parse t else Some []) = Some sm" "list_all valid_move sm"
    by blast
  let ?s2 = "(pause s)\<lparr> animator := clearQueue (animator (pause s)), moves := ms, setupMoves := sm,
      currentStep := 0 \<rparr>"
  have "\<exists>s'. apply_setup ?s2 = Some s' \<and> ctrl_inv s' \<and> running (animator s') = None
            \<and> isPlaying s' = isPlaying ?s2 \<and> playAbort s' = playAbort ?s2"
    using assms r ms sm by (intro apply_setup_inv) (simp_all add: clearQueue_def)
  then obtain s3 where s3: "apply_setup ?s2 = Some s3" "ctrl_inv s3" by blast
  have "ctrl_inv (notifyStep s3) = ctrl_inv s3" by (rule ctrl_inv_cong) simp_all
  with s3 ms(1) sm(1) show ?thesis by (simp add: loadAlgorithm_def Let_def)
qed

lemma play_inv:
  assumes "ctrl_inv s" "isPlaying s \<or> \<not> isAnimating (animator s)"
  shows "\<exists>s'. play s = Some s' \<and> ctrl_inv s'"
proof (cases "isPlaying s")
  case True
  with assms(1) show ?thesis by (simp add: play_def)
next
  case False
  with assms have na: "\<not> isAnimating (animator s)" by simp
  note r = ctrl_inv_idle[OF assms(1) na]
  have "\<exists>s1. (if currentStep s \<ge> length (moves s) then reset s else Some s) = Some s1
          \<and> ctrl_inv s1 \<and> running (animator s1) = None"
    using reset_inv[OF assms(1) na] assms(1) r by auto
  then obtain s1 where s1: "(if currentStep s \<ge> length (moves s) then reset s else Some s) = Some s1"
    "ctrl_inv s1" "running (animator s1) = None" by blast
  let ?s2 = "notifyPlayState (s1\<lparr> isPlaying := True, playAbort := False \<rparr>)"
  have "ctrl_inv ?s2 = ctrl_inv s1" by (rule ctrl_inv_cong) simp_all
  with s1 have "ctrl_inv ?s2" "running (animator ?s2) = None" by simp_all
  from play_loop_inv[OF this] s1(1) False show ?thesis by (simp add: play_def)
qed

lemma stepForward_inv:
  assumes "ctrl_inv s"
  shows "\<exists>s'. stepForward s = Some s' \<and> ctrl_inv s'"
proof (cases "isPlaying s \<or> isAnimating (animator s) \<or> currentStep s \<ge> length (moves s)")
  case True
  with assms show ?thesis by (auto simp: stepForward_def)
next
  case False
  then have na: "\<not> isAnimating (animator s)" by simp
  note r = ctrl_inv_idle[OF assms na]
  from False have lt: "currentStep s < length (moves s)" by simp
  from executeStep_inv[OF assms r lt, of AwaitStepForward] False show ?thesis
    by (auto simp: stepForward_def move_at_def)
qed

lemma stepBackward_inv:
  assumes "ctrl_inv s"
  shows "\<exists>s'. stepBackward s = Some s' \<and> ctrl_inv s'"
proof (cases "isPlaying s \<or> isAnimating (animator s) \<or> currentStep s \<le> 0")
  case True
  with assms show ?thesis by (auto simp: stepBackward_def)
next
  case False
  then have na: "\<not> isAnimating (animator s)" and pos: "0 < currentStep s" by simp_all
  note r = ctrl_inv_idle[OF assms na]
  from assms r have vm: "list_all valid_move (moves s)" and vs: "list_all valid_move (setupMoves s)"
    and q: "queue (animator s) = []" and le: "currentStep s \<le> length (moves s)"
    and g: "grid_at s (currentStep s) = Some (faces (model s))"
    by (simp_all add: ctrl_inv_def ahead_def)
  define n where "n = currentStep s - 1"
  have n: "currentStep s = Suc n" "n < length (moves s)" using pos le by (simp_all add: n_def)
  let ?mv = "moves s ! n"
  from vm n(2) have v: "valid_move ?mv" by (simp add: list_all_length)
  from inverse_valid[OF v] obtain iv where iv: "inverse_move ?mv = Some iv" "valid_move iv" by blast
  from grid_at_ok[OF vs vm, of n] obtain g0 where g0: "grid_at s n = Some g0" "grid_ok g0" by blast
  from grid_at_Suc[OF n(2)] g g0 n(1) have fwd: "applyMove_grid ?mv g0 = Some (faces (model s))"
    by simp
  from undo_grid[OF g0(2) valid_move_face[OF v]] fwd iv(1)
  have bk: "applyMove_grid iv (faces (model s)) = Some g0" by simp
  let ?c' = "\<lparr> faces = g0, history = history (model s) \<rparr>"
  have am: "applyMove iv False (model s) = Some ?c'" using bk by (simp add: applyMove_def)
  let ?s1 = "s\<lparr> currentStep := currentStep s - 1 \<rparr>"
  let ?s' = "?s1\<lparr> model := ?c', animator := animateMove iv AwaitStepBackward (animator ?s1) \<rparr>"
  have a: "animateMove iv AwaitStepBackward (animator s)
      = (animator s)\<lparr> isAnimating := True, running := Some (iv, AwaitStepBackward) \<rparr>"
    using na by (simp add: animateMove_def startAnimation_def)
  have e: "stepBackward s = Some ?s'"
    using False n iv(1) am by (simp add: stepBackward_def move_at_def Let_def)
  have "grid_at ?s' n = Some g0" using g0(1) by (simp add: grid_at_def)
  then have "ctrl_inv ?s'"
    using vm vs q n by (simp add: ctrl_inv_def ahead_def a)
  with e show ?thesis by blast
qed

lemma animation_done_inv:
  assumes "ctrl_inv s"
  shows "\<exists>s'. animation_done s = Some s' \<and> ctrl_inv s'"
proof (cases "running (animator s)")
  case None
  with assms show ?thesis by (simp add: animation_done_def finish_animation_def)
next
  case (Some mk)
  obtain mv k where mk: "mk = (mv, k)" by (cases mk)
  from assms have q: "queue (animator s) = []" by (simp add: ctrl_inv_def)
  let ?a = "(animator s)\<lparr> isAnimating := False, running := None \<rparr>"
  have f: "finish_animation (animator s) = Some (k, ?a)"
    using Some mk q by (simp add: finish_animation_def)
  let ?s0 = "s\<lparr> animator := ?a \<rparr>"
  have d: "animation_done s = resume k ?s0" by (simp add: animation_done_def f)
  from assms Some mk q have vm: "list_all valid_move (moves s)"
    and vs: "list_all valid_move (setupMoves s)"
    and g: "grid_at s (currentStep s + ahead s) = Some (faces (model s))"
    and le: "currentStep s + ahead s \<le> length (moves s)"
    by (simp_all add: ctrl_inv_def)
  show ?thesis
  proof (cases k)
    case AwaitPlay
    then have ah: "ahead s = 1" using Some mk by (simp add: ahead_def)
    let ?s1 = "notifyStep (?s0\<lparr> currentStep := currentStep ?s0 + 1 \<rparr>)"
    have "grid_at ?s1 (currentStep s + 1) = Some (faces (model s))"
      using g ah by (simp add: grid_at_def)
    then have "ctrl_inv ?s1" using vm vs q le ah by (simp add: ctrl_inv_def ahead_def)
    moreover have "running (animator ?s1) = None" by simp
    ultimately show ?thesis using play_loop_inv[of ?s1] d AwaitPlay by simp
  next
    case AwaitStepForward
    then have ah: "ahead s = 1" using Some mk by (simp add: ahead_def)
    let ?s1 = "notifyStep (?s0\<lparr> currentStep := currentStep ?s0 + 1 \<rparr>)"
    have "grid_at ?s1 (currentStep s + 1) = Some (faces (model s))"
      using g ah by (simp add: grid_at_def)
    then have "ctrl_inv ?s1" using vm vs q le ah by (simp add: ctrl_inv_def ahead_def)
    then show ?thesis using d AwaitStepForward by simp
  next
    case AwaitStepBackward
    then have ah: "ahead s = 0" using Some mk by (simp add: ahead_def)
    let ?s1 = "notifyStep ?s0"
    have "grid_at ?s1 (currentStep s) = Some (faces (model s))"
      using g ah by (simp add: grid_at_def)
    then have "ctrl_inv ?s1" using vm vs q le ah by (simp add: ctrl_inv_def ahead_def)
    then show ?thesis using d AwaitStepBackward by simp
  qed
qed

lemma do_event_inv:
  assumes "ctrl_inv s" "calm_event e s"
  shows "\<exists>s'. do_event e s = Some s' \<and> ctrl_inv s'"
proof (cases e)
  case (LoadAlgorithm a t)
  with assms loadAlgorithm_inv[of s a t] show ?thesis by simp
next
  case Play
  with assms play_inv[of s] show ?thesis by simp
next
  case Pause
  with assms show ?thesis by (simp add: ctrl_inv_pause)
next
  case TogglePlay
  with assms play_inv[of s] show ?thesis by (auto simp: togglePlay_def ctrl_inv_pause)
next
  case StepForward
  with assms stepForward_inv[of s] show ?thesis by simp
next
  case StepBackward
  with assms stepBackward_inv[of s] show ?thesis by simp
next
  case Reset
  with assms reset_inv[of s] show ?thesis by auto
next
  case AnimationDone
  with assms animation_done_inv[of s] show ?thesis by simp
qed

lemma run_events_inv:
  assumes "ctrl_inv s" "calm_run es s"
  shows "\<exists>s'. run_events es s = Some s' \<and> ctrl_inv s'"
  using assms
proof (induction es arbitrary: s)
  case Nil
  then show ?case by simp
next
  case (Cons e es)
  from Cons.prems have ce: "calm_event e s" by simp
  from do_event_inv[OF Cons.prems(1) ce] obtain s1 where
    s1: "do_event e s = Some s1" "ctrl_inv s1" by blast
  with Cons.prems(2) have "calm_run es s1" by simp
  from Cons.IH[OF s1(2) this] s1(1) show ?case by simp
qed

lemma ctrl_inv_fresh: "ctrl_inv (fresh_controller sc pc)"
  by (simp add: ctrl_inv_def fresh_controller_def new_controller_def new_animator_def ahead_def
      grid_at_def)

section \<open>Letting the animations run out\<close>

lemma drain_idle:
  assumes "running (animator s) = None"
  shows "drain s = Some s"
  using assms by (subst drain.simps) simp

lemma drain_running:
  assumes "running (animator s) = Some (mv, k)" "queue (animator s) = []"
  shows "drain s = do { s' \<leftarrow> resume k (s\<lparr> animator := (animator s)\<lparr> isAnimating := False, running := None \<rparr> \<rparr>);
                        drain s' }"
  using assms
  by (subst drain.simps) (simp add: animation_done_def finish_animation_def split: option.splits)

lemma executeStep_idle:
  assumes "grid_ok (faces (model s))" "valid_move mv" "idle_animator (animator s)"
  shows "\<exists>c'. applyMove_grid mv (faces (model s)) = Some (faces c') \<and> grid_ok (faces c')
           \<and> history c' = history (model s)
           \<and> executeStep mv k s = Some (s\<lparr> model := c',
                 animator := (animator s)\<lparr> isAnimating := True, running := Some (mv, k) \<rparr> \<rparr>)"
proof -
  from applyMove_ok[OF assms(1,2)] obtain c' where
    c': "applyMove mv False (model s) = Some c'" "grid_ok (faces c')" "history c' = history (model s)"
      "applyMove_grid mv (faces (model s)) = Some (faces c')" by blast
  from assms(3) have "\<not> isAnimating (animator s)" by (simp add: idle_animator_def)
  then show ?thesis using c'
    by (intro exI[of _ c']) (simp add: executeStep_def animateMove_def startAnimation_def)
qed

lemma idle_animator_restore:
  assumes "idle_animator a"
  shows "a\<lparr> isAnimating := False, running := None \<rparr> = a"
  using assms by (simp add: idle_animator_def)

text \<open>
  C5. In a controller that is not playing and whose animator is idle, with the cursor before
  the end of the algorithm, a forward step and a backward step, each followed by the end of
  its animation, give back the grid and the cursor.
\<close>

theorem stepForward_stepBackward_restores:
  assumes "list_all valid_move (moves s)" and "grid_ok (faces (model s))"
    and "\<not> isPlaying s" and "idle_animator (animator s)"
    and "currentStep s < length (moves s)"
  shows "\<exists>s1 s2 s3 s4. stepForward s = Some s1 \<and> drain s1 = Some s2
           \<and> stepBackward s2 = Some s3 \<and> drain s3 = Some s4
           \<and> faces (model s4) = faces (model s) \<and> currentStep s4 = currentStep s"
proof -
  let ?mv = "moves s ! currentStep s"
  from assms(1,5) have v: "valid_move ?mv" by (simp add: list_all_length)
  from assms(4) have na: "\<not> isAnimating (animator s)" and q: "queue (animator s) = []"
    by (simp_all add: idle_animator_def)
  from executeStep_idle[OF assms(2) v assms(4), of AwaitStepForward] obtain c1 where
    c1: "applyMove_grid ?mv (faces (model s)) = Some (faces c1)" "grid_ok (faces c1)"
    and ex: "executeStep ?mv AwaitStepForward s = Some (s\<lparr> model := c1,
        animator := (animator s)\<lparr> isAnimating := True, running := Some (?mv, AwaitStepForward) \<rparr> \<rparr>)"
    by blast
  let ?s1 = "s\<lparr> model := c1,
        animator := (animator s)\<lparr> isAnimating := True, running := Some (?mv, AwaitStepForward) \<rparr> \<rparr>"
  have f1: "stepForward s = Some ?s1"
    using assms(3,5) na ex by (simp add: stepForward_def move_at_def)
  let ?s2 = "notifyStep (s\<lparr> model := c1, currentStep := currentStep s + 1 \<rparr>)"
  have d1: "drain ?s1 = Some ?s2"
    by (subst drain_running[of _ ?mv AwaitStepForward])
       (simp_all add: q idle_animator_restore[OF assms(4)] drain_idle assms(4)[unfolded idle_animator_def])
  from inverse_valid[OF v] obtain iv where iv: "inverse_move ?mv = Some iv" "valid_move iv" by blast
  from undo_grid[OF assms(2) valid_move_face[OF v]] c1(1) iv(1)
  have bk: "applyMove_grid iv (faces c1) = Some (faces (model s))" by simp
  let ?c3 = "\<lparr> faces = faces (model s), history = history c1 \<rparr>"
  let ?a3 = "(animator s)\<lparr> isAnimating := True, running := Some (iv, AwaitStepBackward) \<rparr>"
  let ?s3 = "?s2\<lparr> currentStep := currentStep s, model := ?c3, animator := ?a3 \<rparr>"
  have f3: "stepBackward ?s2 = Some ?s3"
    using assms(3,5) na iv(1) bk
    by (simp add: stepBackward_def move_at_def Let_def applyMove_def animateMove_def
        startAnimation_def)
  let ?s4 = "notifyStep (?s2\<lparr> currentStep := currentStep s, model := ?c3, animator := animator s \<rparr>)"
  have d3: "drain ?s3 = Some ?s4"
    by (subst drain_running[of _ iv AwaitStepBackward])
       (simp_all add: q idle_animator_restore[OF assms(4)] drain_idle assms(4)[unfolded idle_animator_def])
  have "faces (model ?s4) = faces (model s)" "currentStep ?s4 = currentStep s" by simp_all
  with f1 d1 f3 d3 show ?thesis by blast
qed

theorem stepForward_stepBackward_restores_witness:
  "list_all valid_move (moves (new_controller\<lparr> moves :=
        [\<lparr> face = ''R'', prime = False, double = False, wide = False, axis = ''x'', layer = 1,
            direction = - 1, angle = HalfPi \<rparr>] \<rparr>))
   \<and> grid_ok (faces (model (new_controller\<lparr> moves :=
        [\<lparr> face = ''R'', prime = False, double = False, wide = False, axis = ''x'', layer = 1,
            direction = - 1, angle = HalfPi \<rparr>] \<rparr>)))
   \<and> \<not> isPlaying (new_controller\<lparr> moves :=
        [\<lparr> face = ''R'', prime = False, double = False, wide = False, axis = ''x'', layer = 1,
            direction = - 1, angle = HalfPi \<rparr>] \<rparr>)
   \<and> idle_animator (animator (new_controller\<lparr> moves :=
        [\<lparr> face = ''R'', prime = False, double = False, wide = False, axis = ''x'', layer = 1,
            direction = - 1, angle = HalfPi \<rparr>] \<rparr>))
   \<and> currentStep (new_controller\<lparr> moves :=
        [\<lparr> face = ''R'', prime = False, double = False, wide = False, axis = ''x'', layer = 1,
            direction = - 1, angle = HalfPi \<rparr>] \<rparr>) < 1
   \<and> (\<exists>s1 s2 s3 s4.
        stepForward (new_controller\<lparr> moves :=
          [\<lparr> face = ''R'', prime = False, double = False, wide = False, axis = ''x'', layer = 1,
              direction = - 1, angle = HalfPi \<rparr>] \<rparr>) = Some s1
        \<and> drain s1 = Some s2 \<and> stepBackward s2 = Some s3 \<and> drain s3 = Some s4
        \<and> faces (model s4) = solved_faces \<and> currentStep s4 = 0)"
  using stepForward_stepBackward_restores[of "new_controller\<lparr> moves :=
        [\<lparr> face = ''R'', prime = False, double = False, wide = False, axis = ''x'', layer = 1,
            direction = - 1, angle = HalfPi \<rparr>] \<rparr>"]
  by (simp add: new_controller_def new_animator_def idle_animator_def grid_ok_solved
      valid_move_def Move_def toUpperCase_def upper_char_def is_lower_def AXIS_MAP_def)

section \<open>Playing to the end\<close>

lemma drain_playing:
  assumes "list_all valid_move (moves s)" "grid_ok (faces (model s))"
    "running (animator s) = Some (mv, AwaitPlay)" "queue (animator s) = []"
    "\<not> playAbort s" "currentStep s < length (moves s)"
    "onStepChange s" "onPlayStateChange s"
  shows "\<exists>s'. drain s = Some s' \<and> currentStep s' = length (moves s) \<and> \<not> isPlaying s'
           \<and> moves s' = moves s
           \<and> notifications s' = notifications s
                @ map (\<lambda>i. StepChange i (length (moves s))) [Suc (currentStep s)..<Suc (length (moves s))]
                @ [PlayStateChange False]"
  using assms
proof (induction "length (moves s) - currentStep s" arbitrary: s mv)
  case 0
  then show ?case by simp
next
  case (Suc d)
  let ?N = "length (moves s)"
  let ?a = "(animator s)\<lparr> isAnimating := False, running := None \<rparr>"
  let ?s1 = "notifyStep (s\<lparr> animator := ?a, currentStep := currentStep s + 1 \<rparr>)"
  have dr: "drain s = do { s' \<leftarrow> play_loop ?s1; drain s' }"
    using drain_running[OF Suc.prems(3,4)] by simp
  have n1: "notifications ?s1 = notifications s @ [StepChange (Suc (currentStep s)) ?N]"
    using Suc.prems(7) by (simp add: notifyStep_def)
  show ?case
  proof (cases "Suc (currentStep s) < ?N")
    case False
    with Suc.prems(6) have last: "Suc (currentStep s) = ?N" by simp
    let ?s2 = "notifyPlayState (?s1\<lparr> isPlaying := False \<rparr>)"
    have pl: "play_loop ?s1 = Some ?s2" using last by (simp add: play_loop_def)
    have "drain ?s2 = Some ?s2" by (rule drain_idle) simp
    with dr pl have d: "drain s = Some ?s2" by simp
    have "notifications ?s2 = notifications ?s1 @ [PlayStateChange False]"
      using Suc.prems(8) by (simp add: notifyPlayState_def notifyStep_def)
    with n1 last have "notifications ?s2 = notifications s
                @ map (\<lambda>i. StepChange i ?N) [Suc (currentStep s)..<Suc ?N]
                @ [PlayStateChange False]"
      by (simp add: upt_rec[of "length (moves s)"])
    with d last show ?thesis by (intro exI[of _ ?s2]) simp
  next
    case True
    let ?mv = "moves s ! Suc (currentStep s)"
    from Suc.prems(1) True have v: "valid_move ?mv" by (simp add: list_all_length)
    have ok1: "grid_ok (faces (model ?s1))" using Suc.prems(2) by simp
    have id1: "idle_animator (animator ?s1)" using Suc.prems(4) by (simp add: idle_animator_def)
    from executeStep_idle[OF ok1 v id1, of AwaitPlay] obtain c' where
      c': "grid_ok (faces c')"
      and ex: "executeStep ?mv AwaitPlay ?s1 = Some (?s1\<lparr> model := c',
          animator := (animator ?s1)\<lparr> isAnimating := True, running := Some (?mv, AwaitPlay) \<rparr> \<rparr>)"
      by blast
    let ?s2 = "?s1\<lparr> model := c',
          animator := (animator ?s1)\<lparr> isAnimating := True, running := Some (?mv, AwaitPlay) \<rparr> \<rparr>"
    have pl: "play_loop ?s1 = Some ?s2"
      using True Suc.prems(5) ex by (simp add: play_loop_def move_at_def)
    have m: "d = length (moves ?s2) - currentStep ?s2" using Suc.hyps(2) by simp
    have "\<exists>s'. drain ?s2 = Some s' \<and> currentStep s' = length (moves ?s2) \<and> \<not> isPlaying s'
           \<and> moves s' = moves ?s2
           \<and> notifications s' = notifications ?s2
                @ map (\<lambda>i. StepChange i (length (moves ?s2)))
                    [Suc (currentStep ?s2)..<Suc (length (moves ?s2))]
                @ [PlayStateChange False]"
      by (rule Suc.hyps(1)[OF m, of ?mv])
         (use Suc.prems c' True in \<open>simp_all\<close>)
    then obtain s' where s': "drain ?s2 = Some s'" "currentStep s' = ?N" "\<not> isPlaying s'"
      "moves s' = moves s"
      "notifications s' = notifications ?s2
                @ map (\<lambda>i. StepChange i ?N) [Suc (Suc (currentStep s))..<Suc ?N]
                @ [PlayStateChange False]"
      by auto
    have n2: "notifications ?s2 = notifications ?s1" by simp
    have u: "[Suc (currentStep s)..<Suc ?N] = Suc (currentStep s) # [Suc (Suc (currentStep s))..<Suc ?N]"
      using True by (simp add: upt_rec)
    from dr pl s'(1) have "drain s = Some s'" by simp
    moreover have "notifications s' = notifications s
                @ map (\<lambda>i. StepChange i ?N) [Suc (currentStep s)..<Suc ?N]
                @ [PlayStateChange False]"
      unfolding s'(5) n2 n1 u by simp
    ultimately show ?thesis using s'(2,3,4) by blast
  qed
qed

text \<open>
  C4, amended. With an algorithm of \<open>N \<ge> 1\<close> moves loaded, the cursor at 0, the controller
  not playing, the animator idle and both callbacks installed, \<open>play\<close> followed by the
  completion of all its animations ends with the cursor at \<open>N\<close>, and the notifications made
  since the call are: play state \<open>true\<close>, the steps \<open>1\<close> to \<open>N\<close>, play state \<open>false\<close>;
  so \<open>N\<close> step notifications and one play-state notification \<open>false\<close>.
\<close>

theorem play_runs_to_the_end:
  assumes "list_all valid_move (moves s)" and "grid_ok (faces (model s))"
    and "\<not> isPlaying s" and "idle_animator (animator s)"
    and "currentStep s = 0" and "0 < length (moves s)"
    and "onStepChange s" and "onPlayStateChange s"
  shows "\<exists>s1 s2. play s = Some s1 \<and> drain s1 = Some s2
           \<and> currentStep s2 = length (moves s) \<and> \<not> isPlaying s2
           \<and> notifications s2 = notifications s @ PlayStateChange True
                # map (\<lambda>i. StepChange i (length (moves s))) [1..<Suc (length (moves s))]
                @ [PlayStateChange False]
           \<and> length (filter is_step (drop (length (notifications s)) (notifications s2)))
               = length (moves s)
           \<and> count_list (drop (length (notifications s)) (notifications s2)) (PlayStateChange False)
               = 1"
proof -
  let ?N = "length (moves s)"
  let ?mv = "moves s ! 0"
  let ?s0 = "notifyPlayState (s\<lparr> isPlaying := True, playAbort := False \<rparr>)"
  from assms(1,6) have v: "valid_move ?mv" by (simp add: list_all_length)
  have ok0: "grid_ok (faces (model ?s0))" using assms(2) by simp
  have id0: "idle_animator (animator ?s0)" using assms(4) by simp
  from executeStep_idle[OF ok0 v id0, of AwaitPlay] obtain c' where
    c': "grid_ok (faces c')"
    and ex: "executeStep ?mv AwaitPlay ?s0 = Some (?s0\<lparr> model := c',
        animator := (animator ?s0)\<lparr> isAnimating := True, running := Some (?mv, AwaitPlay) \<rparr> \<rparr>)"
    by blast
  let ?s1 = "?s0\<lparr> model := c',
        animator := (animator ?s0)\<lparr> isAnimating := True, running := Some (?mv, AwaitPlay) \<rparr> \<rparr>"
  have p: "play s = Some ?s1"
    using assms(3,5,6) ex by (simp add: play_def play_loop_def move_at_def)
  have n0: "notifications ?s1 = notifications s @ [PlayStateChange True]"
    using assms(8) by (simp add: notifyPlayState_def)
  have "\<exists>s'. drain ?s1 = Some s' \<and> currentStep s' = length (moves ?s1) \<and> \<not> isPlaying s'
           \<and> moves s' = moves ?s1
           \<and> notifications s' = notifications ?s1
                @ map (\<lambda>i. StepChange i (length (moves ?s1)))
                    [Suc (currentStep ?s1)..<Suc (length (moves ?s1))]
                @ [PlayStateChange False]"
    by (rule drain_playing[of _ ?mv])
       (use assms c' in \<open>simp_all add: idle_animator_def\<close>)
  then obtain s2 where s2: "drain ?s1 = Some s2" "currentStep s2 = ?N" "\<not> isPlaying s2"
    and n2: "notifications s2 = notifications ?s1
                @ map (\<lambda>i. StepChange i ?N) [Suc 0..<Suc ?N] @ [PlayStateChange False]"
    using assms(5) by auto
  have nn: "notifications s2 = notifications s @ PlayStateChange True
                # map (\<lambda>i. StepChange i ?N) [1..<Suc ?N] @ [PlayStateChange False]"
    unfolding n2 n0 by simp
  have f: "filter is_step (map (\<lambda>i. StepChange i ?N) xs) = map (\<lambda>i. StepChange i ?N) xs" for xs
    by (simp add: filter_map o_def)
  have cnt: "count_list (map (\<lambda>i. StepChange i ?N) xs) (PlayStateChange False) = 0" for xs
    by (simp add: count_list_0_iff image_iff)
  have "length (filter is_step (drop (length (notifications s)) (notifications s2))) = ?N"
    using assms(6) unfolding nn by (auto simp: f Suc_le_eq)
  moreover have "count_list (drop (length (notifications s)) (notifications s2)) (PlayStateChange False) = 1"
    using assms(6) unfolding nn by (auto simp: cnt Suc_le_eq)
  ultimately show ?thesis using p s2 nn by blast
qed

theorem play_runs_to_the_end_witness:
  "list_all valid_move (moves (new_controller\<lparr> moves :=
        [\<lparr> face = ''R'', prime = False, double = False, wide = False, axis = ''x'', layer = 1,
            direction = - 1, angle = HalfPi \<rparr>], onStepChange := True, onPlayStateChange := True \<rparr>))
   \<and> grid_ok (faces (model (new_controller\<lparr> moves :=
        [\<lparr> face = ''R'', prime = False, double = False, wide = False, axis = ''x'', layer = 1,
            direction = - 1, angle = HalfPi \<rparr>], onStepChange := True, onPlayStateChange := True \<rparr>)))
   \<and> idle_animator (animator (new_controller\<lparr> moves :=
        [\<lparr> face = ''R'', prime = False, double = False, wide = False, axis = ''x'', layer = 1,
            direction = - 1, angle = HalfPi \<rparr>], onStepChange := True, onPlayStateChange := True \<rparr>))
   \<and> (\<exists>s1 s2.
        play (new_controller\<lparr> moves :=
          [\<lparr> face = ''R'', prime = False, double = False, wide = False, axis = ''x'', layer = 1,
              direction = - 1, angle = HalfPi \<rparr>], onStepChange := True, onPlayStateChange := True \<rparr>)
          = Some s1
        \<and> drain s1 = Some s2 \<and> currentStep s2 = 1 \<and> \<not> isPlaying s2
        \<and> notifications s2 = [PlayStateChange True, StepChange 1 1, PlayStateChange False])"
  using play_runs_to_the_end[of "new_controller\<lparr> moves :=
        [\<lparr> face = ''R'', prime = False, double = False, wide = False, axis = ''x'', layer = 1,
            direction = - 1, angle = HalfPi \<rparr>], onStepChange := True, onPlayStateChange := True \<rparr>"]
  by (simp add: new_controller_def new_animator_def idle_animator_def grid_ok_solved
      valid_move_def Move_def toUpperCase_def upper_char_def is_lower_def AXIS_MAP_def; blast)

text \<open>
  With the empty algorithm loaded (\<open>N = 0\<close>) the cursor 0 is already at the end, so \<open>play\<close>
  resets first: since the call, one step notification and two play-state notifications
  \<open>false\<close> are made, not none and one.
\<close>

theorem play_empty_algorithm_notifications:
  "map_option moves (loadAlgorithm [] [] (fresh_controller True True)) = Some []
   \<and> map_option currentStep (loadAlgorithm [] [] (fresh_controller True True)) = Some 0
   \<and> map_option notifications (loadAlgorithm [] [] (fresh_controller True True))
       = Some [PlayStateChange False, StepChange 0 0]
   \<and> map_option notifications
        (Option.bind (Option.bind (loadAlgorithm [] [] (fresh_controller True True)) play) drain)
       = Some [PlayStateChange False, StepChange 0 0,
               PlayStateChange False, StepChange 0 0, PlayStateChange True, PlayStateChange False]"
  by (simp add: loadAlgorithm_def fresh_controller_def new_controller_def new_animator_def
      pause_def notifyPlayState_def notifyStep_def clearQueue_def parse_def apply_setup_def
      reset_model_def play_def reset_def play_loop_def drain_idle Let_def)

section \<open>Calm sessions\<close>

lemma always_calm:
  assumes "\<forall>e \<in> set es. e \<in> {Pause, StepForward, StepBackward, AnimationDone}"
  shows "calm_run es s"
  using assms by (induction es arbitrary: s) (auto split: option.splits)

lemma loadAlgorithm_isAnimating:
  assumes "loadAlgorithm a t s = Some s'"
  shows "isAnimating (animator s') = isAnimating (animator s)"
  using assms
  by (auto simp: loadAlgorithm_def apply_setup_def clearQueue_def Let_def
      split: Option.bind_splits if_splits)

text \<open>
  C1, amended. In a session that starts with a fresh controller and in which
  \<open>loadAlgorithm\<close>, \<open>reset\<close> and a \<open>play\<close> that starts playing are called only while no
  animation is running (\<open>pause\<close>, the two step operations and the completions of animations
  come in any order), no operation throws and, after every event, the grid is the solved grid
  with the setup moves and the first \<open>currentStep\<close> moves applied, plus the one move of a
  forward step whose animation is running. So whenever no animation is running the grid
  is exactly in step with the cursor.
\<close>

theorem calm_session_grid_in_step:
  assumes "calm_run es (fresh_controller sc pc)"
  shows "\<exists>s. run_events es (fresh_controller sc pc) = Some s
           \<and> grid_at s (currentStep s + ahead s) = Some (faces (model s))
           \<and> (\<not> isAnimating (animator s) \<longrightarrow> synced s)"
proof -
  from run_events_inv[OF ctrl_inv_fresh assms] obtain s where
    s: "run_events es (fresh_controller sc pc) = Some s" "ctrl_inv s" by blast
  from s(2) have g: "grid_at s (currentStep s + ahead s) = Some (faces (model s))"
    by (simp add: ctrl_inv_def)
  have "synced s" if "\<not> isAnimating (animator s)"
    using g ctrl_inv_idle[OF s(2) that] by (simp add: synced_def ahead_def)
  with s(1) g show ?thesis by blast
qed

theorem calm_session_grid_in_step_witness:
  "calm_run [LoadAlgorithm ''R U2'' ''F'', Play, AnimationDone, Pause, AnimationDone,
             StepBackward, AnimationDone, StepForward] (fresh_controller True True)
   \<and> (\<exists>s. run_events [LoadAlgorithm ''R U2'' ''F'', Play, AnimationDone, Pause, AnimationDone,
             StepBackward, AnimationDone, StepForward] (fresh_controller True True) = Some s
         \<and> grid_at s (currentStep s + ahead s) = Some (faces (model s))
         \<and> (\<not> isAnimating (animator s) \<longrightarrow> synced s))"
proof -
  have r: "calm_run [AnimationDone, Pause, AnimationDone, StepBackward, AnimationDone, StepForward] s"
    for s by (rule always_calm) simp
  have c: "calm_run [LoadAlgorithm ''R U2'' ''F'', Play, AnimationDone, Pause, AnimationDone,
             StepBackward, AnimationDone, StepForward] (fresh_controller True True)"
    using r
    by (auto simp: fresh_controller_def new_controller_def new_animator_def
        dest!: loadAlgorithm_isAnimating split: option.splits)
  show ?thesis
    using c calm_session_grid_in_step[OF c] by simp
qed

text \<open>
  At the moment \<open>pause\<close> returns during playback the grid is not in step with the cursor:
  after \<open>loadAlgorithm("R")\<close>, \<open>play()\<close> and \<open>pause()\<close> the move R is applied and the cursor
  is 0.
\<close>

theorem pause_during_play_not_synced:
  "map_option synced (run_events [LoadAlgorithm ''R'' [], Play, Pause] (fresh_controller False False))
     = Some False"
proof -
  let ?mR = "\<lparr> face = ''R'', prime = False, double = False, wide = False, axis = ''x'', layer = 1,
      direction = - 1, angle = HalfPi \<rparr>"
  have p: "parse ''R'' = Some [?mR]"
    by (simp add: parse_def trim_def split_ws_def is_space_def FACES_def Move_def AXIS_MAP_def
        toUpperCase_def upper_char_def is_lower_def Let_def)
  have sf: "solved_faces = mk_grid
      [Color ''white'', Color ''white'', Color ''white'', Color ''white'', Color ''white'',
       Color ''white'', Color ''white'', Color ''white'', Color ''white'']
      [Color ''yellow'', Color ''yellow'', Color ''yellow'', Color ''yellow'', Color ''yellow'',
       Color ''yellow'', Color ''yellow'', Color ''yellow'', Color ''yellow'']
      [Color ''green'', Color ''green'', Color ''green'', Color ''green'', Color ''green'',
       Color ''green'', Color ''green'', Color ''green'', Color ''green'']
      [Color ''blue'', Color ''blue'', Color ''blue'', Color ''blue'', Color ''blue'',
       Color ''blue'', Color ''blue'', Color ''blue'', Color ''blue'']
      [Color ''red'', Color ''red'', Color ''red'', Color ''red'', Color ''red'',
       Color ''red'', Color ''red'', Color ''red'', Color ''red'']
      [Color ''orange'', Color ''orange'', Color ''orange'', Color ''orange'', Color ''orange'',
       Color ''orange'', Color ''orange'', Color ''orange'', Color ''orange'']"
    by (simp add: solved_faces_mk_grid eval_nat_numeral)
  have a: "applyMove_grid ?mR solved_faces \<noteq> Some solved_faces"
    unfolding sf by (simp add: move_evals mk_grid_inj)
  obtain g where g: "applyMove_grid ?mR solved_faces = Some g"
    using applyMove_grid_ok[OF grid_ok_solved, of ?mR] by (auto simp: FACES_def)
  with a have ne: "g \<noteq> solved_faces" by simp
  have "run_events [LoadAlgorithm ''R'' [], Play, Pause] (fresh_controller False False)
      = Some (pause ((fresh_controller False False)\<lparr> model := \<lparr> faces = g, history = [] \<rparr>,
          animator := new_animator\<lparr> isAnimating := True, running := Some (?mR, AwaitPlay) \<rparr>,
          moves := [?mR], playAbort := False, isPlaying := True \<rparr>))"
    by (simp add: loadAlgorithm_def p fresh_controller_def new_controller_def new_animator_def
        pause_def notifyPlayState_def notifyStep_def clearQueue_def apply_setup_def
        reset_model_def play_def play_loop_def move_at_def executeStep_def applyMove_def g
        animateMove_def startAnimation_def Let_def)
  then show ?thesis
    using ne by (simp add: synced_def grid_at_def fresh_controller_def new_controller_def)
qed

text \<open>
  The restriction to calm sessions is needed: \<open>reset\<close> called while the animation of a
  forward step is running puts the cursor to 0, and the suspended \<open>play\<close> then advances it
  to 1 over the reset grid. After the animation has ended the grid is not in step.
\<close>

lemma reset_during_animation_not_synced:
  "map_option synced
     (run_events [LoadAlgorithm ''R'' [], Play, Reset, AnimationDone] (fresh_controller False False))
     = Some False
   \<and> map_option currentStep
     (run_events [LoadAlgorithm ''R'' [], Play, Reset, AnimationDone] (fresh_controller False False))
     = Some 1
   \<and> map_option (isAnimating \<circ> animator)
     (run_events [LoadAlgorithm ''R'' [], Play, Reset, AnimationDone] (fresh_controller False False))
     = Some False"
proof -
  let ?mR = "\<lparr> face = ''R'', prime = False, double = False, wide = False, axis = ''x'', layer = 1,
      direction = - 1, angle = HalfPi \<rparr>"
  have p: "parse ''R'' = Some [?mR]"
    by (simp add: parse_def trim_def split_ws_def is_space_def FACES_def Move_def AXIS_MAP_def
        toUpperCase_def upper_char_def is_lower_def Let_def)
  have sf: "solved_faces = mk_grid
      [Color ''white'', Color ''white'', Color ''white'', Color ''white'', Color ''white'',
       Color ''white'', Color ''white'', Color ''white'', Color ''white'']
      [Color ''yellow'', Color ''yellow'', Color ''yellow'', Color ''yellow'', Color ''yellow'',
       Color ''yellow'', Color ''yellow'', Color ''yellow'', Color ''yellow'']
      [Color ''green'', Color ''green'', Color ''green'', Color ''green'', Color ''green'',
       Color ''green'', Color ''green'', Color ''green'', Color ''green'']
      [Color ''blue'', Color ''blue'', Color ''blue'', Color ''blue'', Color ''blue'',
       Color ''blue'', Color ''blue'', Color ''blue'', Color ''blue'']
      [Color ''red'', Color ''red'', Color ''red'', Color ''red'', Color ''red'',
       Color ''red'', Color ''red'', Color ''red'', Color ''red'']
      [Color ''orange'', Color ''orange'', Color ''orange'', Color ''orange'', Color ''orange'',
       Color ''orange'', Color ''orange'', Color ''orange'', Color ''orange'']"
    by (simp add: solved_faces_mk_grid eval_nat_numeral)
  have a: "applyMove_grid ?mR solved_faces \<noteq> Some solved_faces"
    unfolding sf by (simp add: move_evals mk_grid_inj)
  obtain g where g: "applyMove_grid ?mR solved_faces = Some g"
    using applyMove_grid_ok[OF grid_ok_solved, of ?mR] by (auto simp: FACES_def)
  with a have ne: "g \<noteq> solved_faces" by simp
  have "run_events [LoadAlgorithm ''R'' [], Play, Reset, AnimationDone] (fresh_controller False False)
      = Some ((fresh_controller False False)\<lparr> moves := [?mR], playAbort := True, currentStep := 1 \<rparr>)"
    by (simp add: loadAlgorithm_def p fresh_controller_def new_controller_def new_animator_def
        pause_def notifyPlayState_def notifyStep_def clearQueue_def apply_setup_def
        reset_model_def play_def play_loop_def move_at_def executeStep_def applyMove_def g
        animateMove_def startAnimation_def reset_def animation_done_def finish_animation_def
        Let_def)
  then show ?thesis
    using ne g
    by (simp add: synced_def grid_at_def fresh_controller_def new_controller_def new_animator_def
        applyMove_def)
qed

section \<open>The speed of a running animation\<close>

text \<open>
  C7, amended. \<open>setSpeed(m)\<close> with \<open>m > 0\<close> sets the duration to \<open>300 / m\<close> and leaves the
  running animation and the queue as they are. A move started afterwards has that duration.
  The frame callback reads the duration at every frame, so after the call every frame, also
  of a move that was already running, finishes the animation exactly when the time since
  that move's start has reached \<open>300 / m\<close>.
\<close>

theorem setSpeed_read_at_every_frame:
  assumes "0 < speed"
  shows "duration (setSpeed_animator speed a) = 300 / speed
         \<and> running (setSpeed_animator speed a) = running a
         \<and> queue (setSpeed_animator speed a) = queue a
         \<and> isAnimating (setSpeed_animator speed a) = isAnimating a
         \<and> duration (startAnimation mv k (setSpeed_animator speed a)) = 300 / speed
         \<and> (fst (animate_frame startTime now (setSpeed_animator speed a)) \<noteq> None
              \<longleftrightarrow> running a \<noteq> None \<and> 300 / speed \<le> now - startTime)"
proof -
  have d: "0 < 300 / speed" using assms by simp
  have "frame_progress startTime now (setSpeed_animator speed a) < 1
          \<longleftrightarrow> now - startTime < 300 / speed"
    using assms by (simp add: frame_progress_def setSpeed_animator_def min_less_iff_disj
        pos_less_divide_eq)
  moreover have "finish_animation (setSpeed_animator speed a) \<noteq> None \<longleftrightarrow> running a \<noteq> None"
    by (auto simp: finish_animation_def setSpeed_animator_def Let_def split: option.splits)
  ultimately have "fst (animate_frame startTime now (setSpeed_animator speed a)) \<noteq> None
              \<longleftrightarrow> running a \<noteq> None \<and> 300 / speed \<le> now - startTime"
    by (auto simp: animate_frame_def split: option.splits)
  then show ?thesis
    by (simp add: setSpeed_animator_def startAnimation_def)
qed

theorem setSpeed_read_at_every_frame_witness:
  "(0::real) < 2
   \<and> duration (setSpeed_animator 2 (startAnimation
        \<lparr> face = ''R'', prime = False, double = False, wide = False, axis = ''x'', layer = 1,
           direction = - 1, angle = HalfPi \<rparr> AwaitPlay new_animator)) = 150
   \<and> fst (animate_frame 0 150 (setSpeed_animator 2 (startAnimation
        \<lparr> face = ''R'', prime = False, double = False, wide = False, axis = ''x'', layer = 1,
           direction = - 1, angle = HalfPi \<rparr> AwaitPlay new_animator))) \<noteq> None"
  using setSpeed_read_at_every_frame[of 2 "startAnimation
        \<lparr> face = ''R'', prime = False, double = False, wide = False, axis = ''x'', layer = 1,
           direction = - 1, angle = HalfPi \<rparr> AwaitPlay new_animator" _ _ 0 150]
  by (simp add: startAnimation_def new_animator_def)

text \<open>
  A move is started with the duration 300. Without a call of \<open>setSpeed\<close> the frame 200 ms
  after the start does not finish it; after \<open>setSpeed(2)\<close>, called while the move is
  running, the same frame finishes it: the call has changed the duration of the running
  animation.
\<close>

theorem setSpeed_changes_running_animation:
  "fst (animate_frame 0 200 (startAnimation
        \<lparr> face = ''R'', prime = False, double = False, wide = False, axis = ''x'', layer = 1,
           direction = - 1, angle = HalfPi \<rparr> AwaitPlay new_animator)) = None
   \<and> fst (animate_frame 0 200 (setSpeed_animator 2 (startAnimation
        \<lparr> face = ''R'', prime = False, double = False, wide = False, axis = ''x'', layer = 1,
           direction = - 1, angle = HalfPi \<rparr> AwaitPlay new_animator))) = Some AwaitPlay"
  by (simp add: animate_frame_def frame_progress_def startAnimation_def new_animator_def
      setSpeed_animator_def finish_animation_def)

end
